theory Spec2Isabelle
  imports Main "HOL-Library.Word"
begin

unbundle bit_operations_syntax

section \<open>Bytes, errors and streams\<close>

text \<open>
  A Go \<^verbatim>\<open>byte\<close> is an 8-bit word and a \<^verbatim>\<open>uint32\<close> a 32-bit word, so the conversions
  \<^verbatim>\<open>uint32(n)\<close> and \<^verbatim>\<open>byte(n)\<close> wrap as they do in Go. A slice is a list; a nil slice and
  an empty slice are both the empty list, and \<^verbatim>\<open>make\<close> gives a list of any length asked
  for. Lengths and offsets of slices are natural numbers.

  Go's \<^verbatim>\<open>int\<close> is taken to be 64 bits wide, so a \<^verbatim>\<open>uint32\<close> converts to it without loss.
  The counters of the download loop are mathematical integers: \<open>requested\<close> never
  exceeds the length of the piece, \<open>downloaded\<close> never twice that length, and \<open>backlog\<close>
  moves by one for each request sent and each frame read, so none of them can leave
  the 64-bit range in a run that reads fewer than \<open>2^63\<close> frames. The piece size is
  computed from the fields of the manifest alone, and there the 64-bit wrap-around is
  written out.
\<close>

type_synonym byte = "8 word"

datatype error =
    EOF                       \<comment> \<open>the stream ended (or the deadline passed) before any byte\<close>
  | UnexpectedEOF             \<comment> \<open>the stream ended in the middle of a read\<close>
  | WriteError                \<comment> \<open>\<^verbatim>\<open>conn.Write\<close> failed\<close>
  | DialError                 \<comment> \<open>\<^verbatim>\<open>net.DialTimeout\<close> failed\<close>
  | Panic                     \<comment> \<open>a run-time panic (index or slice bounds out of range)\<close>
  | LengthPstrZero            \<comment> \<open>"lengthPstr cannot be 0"\<close>
  | ExpectedPiece byte        \<comment> \<open>"expected PIECE (ID 7), got ID .."\<close>
  | PayloadTooShort nat       \<comment> \<open>"payload too short, .. < 8"\<close>
  | ExpectedIndex int int     \<comment> \<open>"expected index .., got .."\<close>
  | BeginTooHigh int nat      \<comment> \<open>"begin offset too high, .. >= .."\<close>
  | DataTooLong nat int nat   \<comment> \<open>"data too long [..] for offset .. with length .."\<close>
  | ExpectedHave byte         \<comment> \<open>"expected HAVE (ID 4), got ID .."\<close>
  | ExpectedPayloadLength nat \<comment> \<open>"expected payload length 4, got length .."\<close>
  | ExpectedInfoHash          \<comment> \<open>"expected info hash .., got .."\<close>
  | ExpectedBitfieldNil       \<comment> \<open>"expected bitfield, got KeepAlive"\<close>
  | ExpectedBitfieldID byte   \<comment> \<open>"expected bitfield, got ID .."\<close>
  | FailedIntegrity int       \<comment> \<open>"index .. failed integrity check"\<close>

text \<open>
  An \<^verbatim>\<open>io.Reader\<close> is the list of the bytes it will still deliver. \<^verbatim>\<open>io.ReadFull(r, buf)\<close>
  with \<^verbatim>\<open>len(buf) = n\<close> delivers the next \<open>n\<close> bytes; when fewer are left it consumes
  them and fails.
\<close>

definition ReadFull :: "byte list \<Rightarrow> nat \<Rightarrow> (error + byte list) \<times> byte list" where
  "ReadFull r n =
     (if n \<le> length r then (Inr (take n r), drop n r)
      else (Inl (if r = [] then EOF else UnexpectedEOF), []))"

text \<open>
  The slice \<^verbatim>\<open>s[lo:hi]\<close>, and \<^verbatim>\<open>copy(dst[off:], src)\<close>, which returns the number of bytes
  copied. Every slice expression of the source that is modelled by these two is within
  bounds where it is evaluated (the guards before it see to that); the slice
  expressions of \<^verbatim>\<open>Message.Serialize\<close>, which can be out of bounds, are checked there.
\<close>

definition subslice :: "'a list \<Rightarrow> nat \<Rightarrow> nat \<Rightarrow> 'a list" where
  "subslice s lo hi = take (hi - lo) (drop lo s)"

definition copy_at :: "'a list \<Rightarrow> nat \<Rightarrow> 'a list \<Rightarrow> 'a list \<times> nat" where
  "copy_at dst off src =
     (let n = min (length dst - off) (length src)
      in (take off dst @ take n src @ drop (off + n) dst, n))"

text \<open>\<^verbatim>\<open>binary.BigEndian.Uint32\<close> and \<^verbatim>\<open>binary.BigEndian.PutUint32\<close> on four bytes.\<close>

definition Uint32 :: "byte list \<Rightarrow> 32 word" where
  "Uint32 b = ucast (b ! 3) OR push_bit 8 (ucast (b ! 2)) OR push_bit 16 (ucast (b ! 1))
     OR push_bit 24 (ucast (b ! 0))"

definition PutUint32 :: "32 word \<Rightarrow> byte list" where
  "PutUint32 v = [ucast (drop_bit 24 v), ucast (drop_bit 16 v), ucast (drop_bit 8 v), ucast v]"

section \<open>Package message\<close>

type_synonym messageID = byte

definition MsgChoke :: messageID where "MsgChoke = 0"
definition MsgUnchoke :: messageID where "MsgUnchoke = 1"
definition MsgInterested :: messageID where "MsgInterested = 2"
definition MsgNotInterested :: messageID where "MsgNotInterested = 3"
definition MsgHave :: messageID where "MsgHave = 4"
definition MsgBitfield :: messageID where "MsgBitfield = 5"
definition MsgRequest :: messageID where "MsgRequest = 6"
definition MsgPiece :: messageID where "MsgPiece = 7"
definition MsgCancel :: messageID where "MsgCancel = 8"

lemmas messageID_defs = MsgChoke_def MsgUnchoke_def MsgInterested_def MsgNotInterested_def
  MsgHave_def MsgBitfield_def MsgRequest_def MsgPiece_def MsgCancel_def

record Message =
  ID :: messageID
  Payload :: "byte list"

text \<open>A \<^verbatim>\<open>*Message\<close> is a \<open>Message option\<close>: \<open>None\<close> is \<^verbatim>\<open>nil\<close>, the keep-alive.\<close>

definition NewRequest :: "int \<Rightarrow> int \<Rightarrow> int \<Rightarrow> Message" where
  "NewRequest index begin len =
     \<lparr>ID = MsgRequest,
      Payload = PutUint32 (word_of_int index) @ PutUint32 (word_of_int begin)
                @ PutUint32 (word_of_int len)\<rparr>"

definition NewHave :: "int \<Rightarrow> Message" where
  "NewHave index = \<lparr>ID = MsgHave, Payload = PutUint32 (word_of_int index)\<rparr>"

text \<open>
  \<^verbatim>\<open>ParsePiece\<close> writes into the caller's buffer: the model returns the buffer after
  the copy together with the number of bytes copied.
\<close>

definition ParsePiece :: "Message \<Rightarrow> int \<Rightarrow> byte list \<Rightarrow> error + (byte list \<times> int)" where
  "ParsePiece msg expectedIndex buf =
     (if ID msg \<noteq> MsgPiece then Inl (ExpectedPiece (ID msg))
      else if length (Payload msg) < 8 then Inl (PayloadTooShort (length (Payload msg)))
      else
        let index = uint (Uint32 (subslice (Payload msg) 0 4)) in
        if index \<noteq> expectedIndex then Inl (ExpectedIndex expectedIndex index)
        else
          let begin = uint (Uint32 (subslice (Payload msg) 4 8)) in
          if begin \<ge> int (length buf) then Inl (BeginTooHigh begin (length buf))
          else
            let data = drop 8 (Payload msg) in
            if begin + int (length data) > int (length buf)
            then Inl (DataTooLong (length data) begin (length buf))
            else Inr (fst (copy_at buf (nat begin) data), int (length data)))"

definition ParseHave :: "Message \<Rightarrow> error + int" where
  "ParseHave msg =
     (if ID msg \<noteq> MsgHave then Inl (ExpectedHave (ID msg))
      else if length (Payload msg) \<noteq> 4 then Inl (ExpectedPayloadLength (length (Payload msg)))
      else Inr (uint (Uint32 (Payload msg))))"

text \<open>
  \<^verbatim>\<open>Serialize\<close>. The length prefix and the size of the buffer are computed in
  \<^verbatim>\<open>uint32\<close>: \<^verbatim>\<open>length := uint32(len(msg.Payload) + 1)\<close> and \<^verbatim>\<open>make([]byte, length+4)\<close>
  both wrap. Slicing \<^verbatim>\<open>buf[0:4]\<close>, storing \<^verbatim>\<open>buf[4]\<close> and slicing \<^verbatim>\<open>buf[5:]\<close> panic when
  the buffer is too short for them.
\<close>

definition Serialize :: "Message option \<Rightarrow> error + byte list" where
  "Serialize m =
     (case m of
        None \<Rightarrow> Inr (replicate 4 0)
      | Some msg \<Rightarrow>
          let len = (of_nat (length (Payload msg) + 1) :: 32 word);
              buf = replicate (unat (len + 4)) (0 :: byte)
          in if length buf < 4 then Inl Panic
             else
               let buf1 = PutUint32 len @ drop 4 buf in
               if length buf1 \<le> 4 then Inl Panic
               else
                 let buf2 = buf1[4 := ID msg] in
                 Inr (fst (copy_at buf2 5 (Payload msg))))"

text \<open>\<^verbatim>\<open>Read\<close> returns the message, or the error, and what is left of the stream.\<close>

definition Read_message :: "byte list \<Rightarrow> (error + Message option) \<times> byte list" where
  "Read_message r =
     (case ReadFull r 4 of
        (Inl err, r1) \<Rightarrow> (Inl err, r1)
      | (Inr lengthBuf, r1) \<Rightarrow>
          let len = Uint32 lengthBuf in
          if len = 0 then (Inr None, r1)
          else
            (case ReadFull r1 (unat len) of
               (Inl err, r2) \<Rightarrow> (Inl err, r2)
             | (Inr messageBuf, r2) \<Rightarrow>
                 (Inr (Some \<lparr>ID = messageBuf ! 0, Payload = drop 1 messageBuf\<rparr>), r2)))"

section \<open>Package handshake\<close>

text \<open>
  The arrays \<^verbatim>\<open>[20]byte\<close> are lists of 20 bytes. A Go string is its bytes, so \<^verbatim>\<open>Pstr\<close>
  is a byte list and the conversions between \<^verbatim>\<open>string\<close> and \<^verbatim>\<open>[]byte\<close> are the identity.
\<close>

record Handshake =
  Pstr :: "byte list"
  InfoHash :: "byte list"
  PeerID :: "byte list"

definition bytes_of :: "string \<Rightarrow> byte list" where
  "bytes_of s = map (\<lambda>c. of_nat (of_char c)) s"

definition New_handshake :: "byte list \<Rightarrow> byte list \<Rightarrow> Handshake" where
  "New_handshake infoHash peerID =
     \<lparr>Pstr = bytes_of ''BitTorrent protocol'', InfoHash = infoHash, PeerID = peerID\<rparr>"

definition Serialize_handshake :: "Handshake \<Rightarrow> byte list" where
  "Serialize_handshake h =
     (let buf = replicate (length (Pstr h) + 49) (0 :: byte);
          buf = buf[0 := of_nat (length (Pstr h))];
          curr = 1;
          (buf, n) = copy_at buf curr (Pstr h);
          curr = curr + n;
          (buf, n) = copy_at buf curr (replicate 8 0);
          curr = curr + n;
          (buf, n) = copy_at buf curr (InfoHash h);
          curr = curr + n;
          (buf, n) = copy_at buf curr (PeerID h)
      in buf)"

definition Read_handshake :: "byte list \<Rightarrow> (error + Handshake) \<times> byte list" where
  "Read_handshake r =
     (case ReadFull r 1 of
        (Inl err, r1) \<Rightarrow> (Inl err, r1)
      | (Inr lengthBuf, r1) \<Rightarrow>
          let lengthPstr = unat (lengthBuf ! 0) in
          if lengthPstr = 0 then (Inl LengthPstrZero, r1)
          else
            (case ReadFull r1 (48 + lengthPstr) of
               (Inl err, r2) \<Rightarrow> (Inl err, r2)
             | (Inr handshakeBuf, r2) \<Rightarrow>
                 let infoHash = fst (copy_at (replicate 20 0) 0
                                       (subslice handshakeBuf (lengthPstr + 8) (lengthPstr + 8 + 20)));
                     peerID = fst (copy_at (replicate 20 0) 0
                                     (drop (lengthPstr + 8 + 20) handshakeBuf))
                 in (Inr \<lparr>Pstr = subslice handshakeBuf 0 lengthPstr,
                          InfoHash = infoHash, PeerID = peerID\<rparr>, r2)))"


section \<open>Package bitfield\<close>

text \<open>
  Modelled from the spec: \<^verbatim>\<open>HasPiece\<close>, of the package \<^verbatim>\<open>bitfield\<close>, which the client and
  the worker import and whose source is not among the files at hand. The spec: the bit
  for piece \<open>i\<close> is bit \<open>7 - (i mod 8)\<close> of byte \<open>i div 8\<close>, the most significant bit
  first; \<^verbatim>\<open>has_piece\<close> returns false for an index out of range and \<^verbatim>\<open>set_piece\<close> ignores
  one.
\<close>

definition HasPiece :: "byte list \<Rightarrow> int \<Rightarrow> bool" where
  "HasPiece bf index =
     (let byteIndex = nat (index div 8); offset = nat (index mod 8)
      in if index < 0 \<or> byteIndex \<ge> length bf then False
         else bit (bf ! byteIndex) (7 - offset))"

text \<open>
  Modelled from the spec: \<^verbatim>\<open>SetPiece\<close>, of the same package. It sets the bit of the piece
  and does nothing for an index out of range.
\<close>

definition SetPiece :: "byte list \<Rightarrow> int \<Rightarrow> byte list" where
  "SetPiece bf index =
     (let byteIndex = nat (index div 8); offset = nat (index mod 8)
      in if index < 0 \<or> byteIndex \<ge> length bf then bf
         else bf[byteIndex := bf ! byteIndex OR push_bit (7 - offset) 1])"

section \<open>Package client\<close>

text \<open>
  A \<^verbatim>\<open>net.Conn\<close> is what the peer will still send (\<open>inbound\<close>), the outcome of each
  write still to come (\<open>write_results\<close>, \<open>True\<close> for success; once the list is used up
  every write succeeds), the writes that went through (\<open>outbound\<close>) and whether the
  connection was closed. A read on a stream that has run dry fails, as a read does
  when the peer hangs up or the deadline passes; the deadlines themselves are not
  modelled.
\<close>

record Conn =
  inbound :: "byte list"
  write_results :: "bool list"
  outbound :: "byte list list"
  closed :: bool

definition Conn_Write :: "Conn \<Rightarrow> byte list \<Rightarrow> error option \<times> Conn" where
  "Conn_Write conn bs =
     (case write_results conn of
        [] \<Rightarrow> (None, conn\<lparr>outbound := outbound conn @ [bs]\<rparr>)
      | ok # rest \<Rightarrow>
          if ok then (None, conn\<lparr>write_results := rest, outbound := outbound conn @ [bs]\<rparr>)
          else (Some WriteError, conn\<lparr>write_results := rest\<rparr>))"

definition Conn_Close :: "Conn \<Rightarrow> Conn" where
  "Conn_Close conn = conn\<lparr>closed := True\<rparr>"

record Peer =
  IP :: "byte list"
  Port :: "16 word"

record Client =
  Conn :: Conn
  Choked :: bool
  Bitfield :: "byte list"
  cl_peer :: Peer
  cl_infoHash :: "byte list"
  cl_peerID :: "byte list"

definition completeHandshake ::
  "Conn \<Rightarrow> byte list \<Rightarrow> byte list \<Rightarrow> (error + Handshake) \<times> Conn" where
  "completeHandshake conn infoHash peerID =
     (let req = New_handshake infoHash peerID in
      case Conn_Write conn (Serialize_handshake req) of
        (Some err, conn1) \<Rightarrow> (Inl err, conn1)
      | (None, conn1) \<Rightarrow>
          (case Read_handshake (inbound conn1) of
             (Inl err, r) \<Rightarrow> (Inl err, conn1\<lparr>inbound := r\<rparr>)
           | (Inr res, r) \<Rightarrow>
               if InfoHash res \<noteq> infoHash then (Inl ExpectedInfoHash, conn1\<lparr>inbound := r\<rparr>)
               else (Inr res, conn1\<lparr>inbound := r\<rparr>)))"

definition receiveBitfield :: "Conn \<Rightarrow> (error + byte list) \<times> Conn" where
  "receiveBitfield conn =
     (case Read_message (inbound conn) of
        (Inl err, r) \<Rightarrow> (Inl err, conn\<lparr>inbound := r\<rparr>)
      | (Inr None, r) \<Rightarrow> (Inl ExpectedBitfieldNil, conn\<lparr>inbound := r\<rparr>)
      | (Inr (Some msg), r) \<Rightarrow>
          if ID msg \<noteq> MsgBitfield then (Inl (ExpectedBitfieldID (ID msg)), conn\<lparr>inbound := r\<rparr>)
          else (Inr (Payload msg), conn\<lparr>inbound := r\<rparr>))"

text \<open>
  \<^verbatim>\<open>New\<close>. The first argument is what \<^verbatim>\<open>net.DialTimeout\<close> gave: an error or the open
  connection. The result is the client or the error, and the connection as \<^verbatim>\<open>New\<close>
  leaves it (none when dialling failed).
\<close>

definition New ::
  "error + Conn \<Rightarrow> Peer \<Rightarrow> byte list \<Rightarrow> byte list \<Rightarrow> (error + Client) \<times> Conn option" where
  "New dial peer peerID infoHash =
     (case dial of
        Inl err \<Rightarrow> (Inl err, None)
      | Inr conn \<Rightarrow>
          (case completeHandshake conn infoHash peerID of
             (Inl err, conn1) \<Rightarrow> (Inl err, Some (Conn_Close conn1))
           | (Inr _, conn1) \<Rightarrow>
               (case receiveBitfield conn1 of
                  (Inl err, conn2) \<Rightarrow> (Inl err, Some (Conn_Close conn2))
                | (Inr bf, conn2) \<Rightarrow>
                    (Inr \<lparr>Conn = conn2, Choked = True, Bitfield = bf, cl_peer = peer,
                          cl_infoHash = infoHash, cl_peerID = peerID\<rparr>, Some conn2))))"

definition Client_Read :: "Client \<Rightarrow> (error + Message option) \<times> Client" where
  "Client_Read c =
     (case Read_message (inbound (Conn c)) of
        (res, r) \<Rightarrow> (res, c\<lparr>Conn := (Conn c)\<lparr>inbound := r\<rparr>\<rparr>))"

text \<open>What every \<^verbatim>\<open>Send...\<close> does with its message: \<^verbatim>\<open>c.Conn.Write(msg.Serialize())\<close>.\<close>

definition send :: "Client \<Rightarrow> Message \<Rightarrow> error option \<times> Client" where
  "send c msg =
     (case Serialize (Some msg) of
        Inl err \<Rightarrow> (Some err, c)
      | Inr bs \<Rightarrow> (case Conn_Write (Conn c) bs of (err, conn1) \<Rightarrow> (err, c\<lparr>Conn := conn1\<rparr>)))"

definition SendRequest :: "Client \<Rightarrow> int \<Rightarrow> int \<Rightarrow> int \<Rightarrow> error option \<times> Client" where
  "SendRequest c index begin len = send c (NewRequest index begin len)"

definition SendInterested :: "Client \<Rightarrow> error option \<times> Client" where
  "SendInterested c = send c \<lparr>ID = MsgInterested, Payload = []\<rparr>"

definition SendNotInterested :: "Client \<Rightarrow> error option \<times> Client" where
  "SendNotInterested c = send c \<lparr>ID = MsgNotInterested, Payload = []\<rparr>"

definition SendUnchoke :: "Client \<Rightarrow> error option \<times> Client" where
  "SendUnchoke c = send c \<lparr>ID = MsgUnchoke, Payload = []\<rparr>"

definition SendHave :: "Client \<Rightarrow> int \<Rightarrow> error option \<times> Client" where
  "SendHave c index = send c (NewHave index)"

section \<open>Package p2p\<close>

definition MaxBlockSize :: int where "MaxBlockSize = 16 * 1024"
definition MaxBacklog :: int where "MaxBacklog = 5"

record Torrent =
  Peers :: "Peer list"
  PeerId :: "byte list"
  t_InfoHash :: "byte list"
  PieceHashes :: "byte list list"
  PieceLength :: int
  Length :: int
  Name :: string

record pieceWork =
  pw_index :: int
  pw_hash :: "byte list"
  pw_length :: int

record pieceResult =
  res_index :: int
  res_buf :: "byte list"

text \<open>
  The field \<open>trace\<close> is not in the source. It is a ghost field that the program never
  reads: the requests that went out and the frames that came in, in order, each with
  the \<^verbatim>\<open>Choked\<close> flag and the backlog right after it.
\<close>

datatype event = Sent int int int | Received "Message option"

record observation =
  event :: event
  choked_then :: bool
  backlog_then :: int

record pieceProgress =
  index :: int
  client :: Client
  buf :: "byte list"
  downloaded :: int
  requested :: int
  backlog :: int
  trace :: "observation list"

definition observe :: "event \<Rightarrow> pieceProgress \<Rightarrow> pieceProgress" where
  "observe e st =
     st\<lparr>trace := trace st @
        [\<lparr>event = e, choked_then = Choked (client st), backlog_then = backlog st\<rparr>]\<rparr>"

text \<open>The \<^verbatim>\<open>switch msg.ID\<close> of \<^verbatim>\<open>readMessage\<close>.\<close>

definition readMessage_switch :: "Message \<Rightarrow> pieceProgress \<Rightarrow> error option \<times> pieceProgress" where
  "readMessage_switch msg st =
     (if ID msg = MsgUnchoke then (None, st\<lparr>client := (client st)\<lparr>Choked := False\<rparr>\<rparr>)
      else if ID msg = MsgChoke then (None, st\<lparr>client := (client st)\<lparr>Choked := True\<rparr>\<rparr>)
      else if ID msg = MsgHave then
        (case ParseHave msg of
           Inl err \<Rightarrow> (Some err, st)
         | Inr i \<Rightarrow>
             (None, st\<lparr>client := (client st)\<lparr>Bitfield := SetPiece (Bitfield (client st)) i\<rparr>\<rparr>))
      else if ID msg = MsgPiece then
        (case ParsePiece msg (index st) (buf st) of
           Inl err \<Rightarrow> (Some err, st)
         | Inr (b, n) \<Rightarrow>
             (None, st\<lparr>buf := b, downloaded := downloaded st + n, backlog := backlog st - 1\<rparr>))
      else (None, st))"

definition readMessage :: "pieceProgress \<Rightarrow> error option \<times> pieceProgress" where
  "readMessage st =
     (case Client_Read (client st) of
        (Inl err, c) \<Rightarrow> (Some err, st\<lparr>client := c\<rparr>)
      | (Inr None, c) \<Rightarrow> (None, observe (Received None) (st\<lparr>client := c\<rparr>))
      | (Inr (Some msg), c) \<Rightarrow>
          (case readMessage_switch msg (st\<lparr>client := c\<rparr>) of
             (err, st1) \<Rightarrow> (err, observe (Received (Some msg)) st1)))"

text \<open>
  The inner loop of \<^verbatim>\<open>attemptDownloadPiece\<close>: requests until the backlog is full or the
  whole piece is requested. \<open>blockSize\<close> is the local variable of that name: the last
  block might be shorter than the typical block.
\<close>

definition blockSize :: "pieceWork \<Rightarrow> pieceProgress \<Rightarrow> int" where
  "blockSize pw st =
     (if pw_length pw - requested st < MaxBlockSize then pw_length pw - requested st
      else MaxBlockSize)"

function requestLoop :: "pieceWork \<Rightarrow> pieceProgress \<Rightarrow> error option \<times> pieceProgress" where
  "requestLoop pw st =
     (if backlog st < MaxBacklog \<and> requested st < pw_length pw then
        (case SendRequest (client st) (pw_index pw) (requested st) (blockSize pw st) of
           (Some err, c) \<Rightarrow> (Some err, st\<lparr>client := c\<rparr>)
         | (None, c) \<Rightarrow>
             requestLoop pw
               (observe (Sent (pw_index pw) (requested st) (blockSize pw st))
                  (st\<lparr>client := c, backlog := backlog st + 1,
                      requested := requested st + blockSize pw st\<rparr>)))
      else (None, st))"
  by pat_completeness auto
termination
  by (relation "measure (\<lambda>(pw, st). nat (MaxBacklog - backlog st))")
     (auto simp: observe_def)

lemma send_inbound: "inbound (Conn (snd (send c msg))) = inbound (Conn c)"
  by (auto simp: send_def Conn_Write_def split: sum.splits list.splits prod.splits)

lemma requestLoop_unfold:
  "requestLoop pw st =
     (if backlog st < MaxBacklog \<and> requested st < pw_length pw then
        (case SendRequest (client st) (pw_index pw) (requested st) (blockSize pw st) of
           (Some err, c) \<Rightarrow> (Some err, st\<lparr>client := c\<rparr>)
         | (None, c) \<Rightarrow>
             requestLoop pw
               (observe (Sent (pw_index pw) (requested st) (blockSize pw st))
                  (st\<lparr>client := c, backlog := backlog st + 1,
                      requested := requested st + blockSize pw st\<rparr>)))
      else (None, st))"
  by (rule requestLoop.simps)

text \<open>An invariant of the request loop: kept by a request that goes out and by one that fails.\<close>

lemma requestLoop_invariant:
  assumes init: "P st"
    and sent: "\<And>s c. P s \<Longrightarrow> backlog s < MaxBacklog \<Longrightarrow> requested s < pw_length pw \<Longrightarrow>
        SendRequest (client s) (pw_index pw) (requested s) (blockSize pw s) = (None, c) \<Longrightarrow>
        P (observe (Sent (pw_index pw) (requested s) (blockSize pw s))
             (s\<lparr>client := c, backlog := backlog s + 1,
                requested := requested s + blockSize pw s\<rparr>))"
    and failed: "\<And>s e c. P s \<Longrightarrow> backlog s < MaxBacklog \<Longrightarrow> requested s < pw_length pw \<Longrightarrow>
        SendRequest (client s) (pw_index pw) (requested s) (blockSize pw s) = (Some e, c) \<Longrightarrow>
        P (s\<lparr>client := c\<rparr>)"
  shows "P (snd (requestLoop pw st))"
  using init sent failed
proof (induction pw st rule: requestLoop.induct)
  case (1 pw st)
  note init = "1.prems"(1) and sent = "1.prems"(2) and failed = "1.prems"(3)
  show ?case
  proof (cases "backlog st < MaxBacklog \<and> requested st < pw_length pw")
    case False
    then have "requestLoop pw st = (None, st)"
      by (subst requestLoop_unfold) auto
    then show ?thesis using init by simp
  next
    case True
    then have b: "backlog st < MaxBacklog" and r: "requested st < pw_length pw" by auto
    obtain err c where sr:
      "SendRequest (client st) (pw_index pw) (requested st) (blockSize pw st) = (err, c)"
      by (cases "SendRequest (client st) (pw_index pw) (requested st) (blockSize pw st)") auto
    show ?thesis
    proof (cases err)
      case (Some e)
      have "P (st\<lparr>client := c\<rparr>)"
        by (rule failed[OF init b r sr[unfolded Some]])
      then show ?thesis
        using True sr Some by (simp add: requestLoop_unfold[of pw st])
    next
      case None
      have "P (observe (Sent (pw_index pw) (requested st) (blockSize pw st))
             (st\<lparr>client := c, backlog := backlog st + 1,
                requested := requested st + blockSize pw st\<rparr>))"
        by (rule sent[OF init b r sr[unfolded None]])
      then have ih: "P (snd (requestLoop pw
             (observe (Sent (pw_index pw) (requested st) (blockSize pw st))
             (st\<lparr>client := c, backlog := backlog st + 1,
                requested := requested st + blockSize pw st\<rparr>))))"
        using "1.IH"[OF True sr[unfolded None, symmetric] refl] sent failed by blast
      have eq: "requestLoop pw st = requestLoop pw
             (observe (Sent (pw_index pw) (requested st) (blockSize pw st))
             (st\<lparr>client := c, backlog := backlog st + 1,
                requested := requested st + blockSize pw st\<rparr>))"
        by (subst requestLoop_unfold) (simp add: True sr None)
      show ?thesis unfolding eq by (rule ih)
    qed
  qed
qed

lemma SendRequest_inbound:
  "SendRequest c i b l = (err, c1) \<Longrightarrow> inbound (Conn c1) = inbound (Conn c)"
  using send_inbound[of c "NewRequest i b l"] by (simp add: SendRequest_def)

lemma requestLoop_inbound:
  "inbound (Conn (client (snd (requestLoop pw st)))) = inbound (Conn (client st))"
  by (rule requestLoop_invariant[where P = "\<lambda>s. inbound (Conn (client s)) = inbound (Conn (client st))"])
     (auto simp: observe_def dest: SendRequest_inbound)

lemma ReadFull_length:
  "ReadFull r n = (Inr bs, r1) \<Longrightarrow> length r1 + n = length r"
  by (auto simp: ReadFull_def split: if_splits)

lemma Read_message_consumes:
  assumes "Read_message r = (Inr m, r1)"
  shows "length r1 < length r"
proof -
  obtain lengthBuf r0 where rf: "ReadFull r 4 = (Inr lengthBuf, r0)"
    using assms by (auto simp: Read_message_def split: prod.splits sum.splits)
  have l0: "length r0 + 4 = length r" by (rule ReadFull_length[OF rf])
  show ?thesis
  proof (cases "Uint32 lengthBuf = 0")
    case True
    then have "r1 = r0" using assms rf by (simp add: Read_message_def)
    then show ?thesis using l0 by simp
  next
    case False
    then obtain messageBuf where "ReadFull r0 (unat (Uint32 lengthBuf)) = (Inr messageBuf, r1)"
      using assms rf by (auto simp: Read_message_def Let_def split: prod.splits sum.splits)
    then have "length r1 + unat (Uint32 lengthBuf) = length r0" by (rule ReadFull_length)
    then show ?thesis using l0 by simp
  qed
qed

lemma readMessage_switch_client_Conn:
  "Conn (client (snd (readMessage_switch msg st))) = Conn (client st)"
  by (auto simp: readMessage_switch_def split: sum.splits prod.splits)

lemma readMessage_consumes:
  assumes "readMessage st = (None, st1)"
  shows "length (inbound (Conn (client st1))) < length (inbound (Conn (client st)))"
proof -
  obtain res c where cr: "Client_Read (client st) = (res, c)"
    by (cases "Client_Read (client st)") auto
  then obtain m where res: "res = Inr m"
    using assms by (cases res) (auto simp: readMessage_def)
  have rm: "Read_message (inbound (Conn (client st))) = (Inr m, inbound (Conn c))"
    using cr res by (auto simp: Client_Read_def split: prod.splits)
  have lt: "length (inbound (Conn c)) < length (inbound (Conn (client st)))"
    by (rule Read_message_consumes[OF rm])
  have "Conn (client st1) = Conn c"
  proof (cases m)
    case None
    then show ?thesis using assms cr res by (auto simp: readMessage_def observe_def)
  next
    case (Some msg)
    then show ?thesis
      using assms cr res readMessage_switch_client_Conn[of msg "st\<lparr>client := c\<rparr>"]
      by (auto simp: readMessage_def observe_def split: prod.splits)
  qed
  then show ?thesis using lt by simp
qed

text \<open>
  The outer loop. It ends: every pass reads a frame, and the peer's stream is finite.
\<close>

lemma downloadLoop_measure:
  assumes a: "(if \<not> Choked (client st) then requestLoop pw st else (None, st)) = (None, st1)"
    and b: "readMessage st1 = (None, st2)"
  shows "length (inbound (Conn (client st2))) < length (inbound (Conn (client st)))"
proof -
  have "inbound (Conn (client st1)) = inbound (Conn (client st))"
    using a requestLoop_inbound[of pw st] by (auto split: if_splits)
  then show ?thesis using readMessage_consumes[OF b] by simp
qed

function downloadLoop :: "pieceWork \<Rightarrow> pieceProgress \<Rightarrow> error option \<times> pieceProgress" where
  "downloadLoop pw st =
     (if downloaded st < pw_length pw then
        (case (if \<not> Choked (client st) then requestLoop pw st else (None, st)) of
           (Some err, st1) \<Rightarrow> (Some err, st1)
         | (None, st1) \<Rightarrow>
             (case readMessage st1 of
                (Some err, st2) \<Rightarrow> (Some err, st2)
              | (None, st2) \<Rightarrow> downloadLoop pw st2))
      else (None, st))"
  by pat_completeness auto
termination
  apply (relation "measure (\<lambda>(pw, st). length (inbound (Conn (client st))))")
   apply simp
  apply (simp only: in_measure prod.case)
  apply (rule downloadLoop_measure)
   apply (erule sym)
  apply (erule sym)
  done

text \<open>
  \<^verbatim>\<open>attemptDownloadPiece\<close>. \<open>attemptDownloadPiece_run\<close> is the loop from the initial state and
  gives the final state with its trace; \<open>attemptDownloadPiece\<close> is what the caller
  sees: the buffer or the error, and the client as the attempt leaves it.
  \<^verbatim>\<open>make([]byte, pw.length)\<close> panics when the length is negative.
\<close>

definition attemptDownloadPiece_run :: "Client \<Rightarrow> pieceWork \<Rightarrow> error option \<times> pieceProgress" where
  "attemptDownloadPiece_run c pw =
     downloadLoop pw
       \<lparr>index = pw_index pw, client = c, buf = replicate (nat (pw_length pw)) 0,
        downloaded = 0, requested = 0, backlog = 0, trace = []\<rparr>"

definition attemptDownloadPiece :: "Client \<Rightarrow> pieceWork \<Rightarrow> (error + byte list) \<times> Client" where
  "attemptDownloadPiece c pw =
     (if pw_length pw < 0 then (Inl Panic, c)
      else
        (case attemptDownloadPiece_run c pw of
           (Some err, st) \<Rightarrow> (Inl err, client st)
         | (None, st) \<Rightarrow> (Inr (buf st), client st)))"

text \<open>
  \<^verbatim>\<open>checkIntegrity\<close>. \<^verbatim>\<open>sha1.Sum\<close> is the standard library's; the model takes the hash
  function as a parameter.
\<close>

definition checkIntegrity :: "(byte list \<Rightarrow> byte list) \<Rightarrow> pieceWork \<Rightarrow> byte list \<Rightarrow> error option" where
  "checkIntegrity sha1 pw b =
     (if sha1 b \<noteq> pw_hash pw then Some (FailedIntegrity (pw_index pw)) else None)"

text \<open>
  One pass of the loop \<^verbatim>\<open>for pw := range workQueue\<close> of \<^verbatim>\<open>startDownloadWorker\<close>, for the
  piece \<open>pw\<close> that the worker has just taken from the queue. The two channels are
  lists, a send appends. The result says whether the worker goes on to the next piece
  (\<^verbatim>\<open>continue\<close>, or the end of the body), returns, or panics (a panic is not an error
  that \<^verbatim>\<open>attemptDownloadPiece\<close> returns: nothing after the call runs). The deferred
  \<^verbatim>\<open>c.Conn.Close()\<close> runs when the worker returns and is not part of the pass.
\<close>

datatype control = Continue | Return | Panics

definition startDownloadWorker_iteration ::
  "(byte list \<Rightarrow> byte list) \<Rightarrow> Client \<Rightarrow> pieceWork \<Rightarrow> pieceWork list \<Rightarrow> pieceResult list
     \<Rightarrow> control \<times> Client \<times> pieceWork list \<times> pieceResult list" where
  "startDownloadWorker_iteration sha1 c pw workQueue results =
     (if \<not> HasPiece (Bitfield c) (pw_index pw) then (Continue, c, workQueue @ [pw], results)
      else
        (case attemptDownloadPiece c pw of
           (Inl err, c1) \<Rightarrow>
             if err = Panic then (Panics, c1, workQueue, results)
             else (Return, c1, workQueue @ [pw], results)
         | (Inr b, c1) \<Rightarrow>
             (case checkIntegrity sha1 pw b of
                Some err \<Rightarrow> (Continue, c1, workQueue @ [pw], results)
              | None \<Rightarrow>
                  (case SendHave c1 (pw_index pw) of
                     (_, c2) \<Rightarrow>
                       (Continue, c2, workQueue,
                        results @ [\<lparr>res_index = pw_index pw, res_buf = b\<rparr>])))))"

text \<open>
  The piece bounds. The arithmetic is Go's on \<^verbatim>\<open>int\<close>: 64 bits, two's complement,
  wrapping on overflow (\<open>int64\<close>).
\<close>

definition int64 :: "int \<Rightarrow> int" where
  "int64 x = (x + 2 ^ 63) mod 2 ^ 64 - 2 ^ 63"

definition calcultateBoundsForPiece :: "Torrent \<Rightarrow> int \<Rightarrow> int \<times> int" where
  "calcultateBoundsForPiece t i =
     (let begin = int64 (i * PieceLength t);
          end = int64 (begin + PieceLength t);
          end = (if end > Length t then Length t else end)
      in (begin, end))"

definition calculatePieceSize :: "Torrent \<Rightarrow> int \<Rightarrow> int" where
  "calculatePieceSize t i =
     (case calcultateBoundsForPiece t i of (begin, end) \<Rightarrow> int64 (end - begin))"

section \<open>Facts about the byte helpers\<close>

lemma copy_at_fits:
  "off + length src \<le> length dst \<Longrightarrow>
   copy_at dst off src = (take off dst @ src @ drop (off + length src) dst, length src)"
  by (auto simp: copy_at_def Let_def min_def)

lemma length_copy_at: "off \<le> length dst \<Longrightarrow> length (fst (copy_at dst off src)) = length dst"
  by (auto simp: copy_at_def Let_def min_def)

lemma length_PutUint32: "length (PutUint32 v) = 4"
  by (simp add: PutUint32_def)

lemma Uint32_PutUint32: "Uint32 (PutUint32 v) = v"
  unfolding Uint32_def PutUint32_def
proof (rule bit_word_eqI)
  fix n :: nat
  assume "n < LENGTH(32)"
  then have n: "n < 32" by simp
  consider "n < 8" | "8 \<le> n" "n < 16" | "16 \<le> n" "n < 24" | "24 \<le> n" "n < 32"
    using n by linarith
  then show "bit (ucast ([ucast (drop_bit 24 v), ucast (drop_bit 16 v), ucast (drop_bit 8 v),
                 ucast v :: byte] ! 3) OR
            push_bit 8 (ucast ([ucast (drop_bit 24 v), ucast (drop_bit 16 v),
                 ucast (drop_bit 8 v), ucast v :: byte] ! 2)) OR
            push_bit 16 (ucast ([ucast (drop_bit 24 v), ucast (drop_bit 16 v),
                 ucast (drop_bit 8 v), ucast v :: byte] ! 1)) OR
            push_bit 24 (ucast ([ucast (drop_bit 24 v), ucast (drop_bit 16 v),
                 ucast (drop_bit 8 v), ucast v :: byte] ! 0)) :: 32 word) n = bit v n"
    by cases (auto simp: bit_simps)
qed

lemma unat_of_nat32: "n < 2 ^ 32 \<Longrightarrow> unat (of_nat n :: 32 word) = n"
  by (simp add: unat_of_nat)

text \<open>The value \<^verbatim>\<open>Uint32\<close> reads is the big-endian one.\<close>

definition big_endian_at :: "byte list \<Rightarrow> nat \<Rightarrow> int" where
  "big_endian_at p k =
     ((uint (p ! k) * 256 + uint (p ! (k + 1))) * 256 + uint (p ! (k + 2))) * 256
       + uint (p ! (k + 3))"

lemma or_push8: "0 \<le> x \<Longrightarrow> x < 256 \<Longrightarrow> x OR push_bit 8 y = x + 256 * (y::int)"
  using concat_bit_eq[of 8 x y]
  by (simp add: concat_bit_def take_bit_int_eq_self push_bit_eq_mult)

lemma uint_byte_bounds: "0 \<le> uint (a::byte) \<and> uint a < 256"
  using uint_bounded[of a] by simp

lemma uint_ucast_byte: "uint (ucast (a::byte) :: 32 word) = uint a"
  by (simp add: uint_up_ucast is_up)

lemma uint_push_ucast_byte:
  assumes n: "n \<le> 24"
  shows "uint (push_bit n (ucast (a::byte) :: 32 word)) = push_bit n (uint a)"
proof -
  have "push_bit n (uint a) < 2 ^ 32"
  proof -
    have "push_bit n (uint a) < push_bit n (2 ^ 8)"
      using uint_byte_bounds[of a] by (simp add: push_bit_eq_mult)
    also have "\<dots> = 2 ^ (n + 8)" by (simp add: push_bit_eq_mult power_add)
    also have "\<dots> \<le> (2::int) ^ 32" using n by (intro power_increasing) auto
    finally show ?thesis .
  qed
  moreover have "0 \<le> push_bit n (uint a)" by (simp add: push_bit_eq_mult)
  ultimately show ?thesis
    by (simp add: unsigned_push_bit_eq uint_ucast_byte take_bit_int_eq_self)
qed

lemma uint_Uint32_4:
  "uint (Uint32 [a, b, c, d]) = ((uint a * 256 + uint b) * 256 + uint c) * 256 + uint d"
proof -
  have 1: "uint (Uint32 [a, b, c, d]) =
      uint d OR push_bit 8 (uint c) OR push_bit 16 (uint b) OR push_bit 24 (uint a)"
    by (simp add: Uint32_def uint_or uint_push_ucast_byte uint_ucast_byte)
  have 2: "uint d OR push_bit 8 (uint c) OR push_bit 16 (uint b) OR push_bit 24 (uint a)
     = uint d OR push_bit 8 (uint c OR push_bit 8 (uint b OR push_bit 8 (uint a)))"
    by (simp add: push_bit_or push_bit_push_bit)
  show ?thesis
    unfolding 1 2
    using uint_byte_bounds[of a] uint_byte_bounds[of b] uint_byte_bounds[of c]
      uint_byte_bounds[of d]
    by (simp add: or_push8)
qed

lemma Uint32_nth: "Uint32 b = Uint32 [b ! 0, b ! 1, b ! 2, b ! 3]"
  by (simp add: Uint32_def)

lemma uint_Uint32_slice:
  "k + 4 \<le> length p \<Longrightarrow> uint (Uint32 (subslice p k (k + 4))) = big_endian_at p k"
  by (subst Uint32_nth) (simp add: uint_Uint32_4 subslice_def big_endian_at_def add.commute)

section \<open>Handshake framing\<close>

lemma Serialize_handshake_eq:
  assumes "length (InfoHash h) = 20" "length (PeerID h) = 20"
  shows "Serialize_handshake h =
    of_nat (length (Pstr h)) # Pstr h @ replicate 8 0 @ InfoHash h @ PeerID h"
proof -
  let ?p = "length (Pstr h)"
  let ?b0 = "(replicate (?p + 49) (0::byte))[0 := of_nat ?p]"
  have b0: "?b0 = of_nat ?p # replicate (?p + 48) 0"
    by (simp add: numeral_eq_Suc)
  have c1: "copy_at ?b0 1 (Pstr h) = (of_nat ?p # Pstr h @ replicate 48 0, ?p)"
    unfolding b0 by (simp add: copy_at_fits drop_Cons' take_Cons')
  have c2: "copy_at (of_nat ?p # Pstr h @ replicate 48 0) (1 + ?p) (replicate 8 0)
      = (of_nat ?p # Pstr h @ replicate 8 0 @ replicate 40 0, 8)"
    by (simp add: copy_at_fits drop_Cons' take_Cons' flip: replicate_add)
  have c3: "copy_at (of_nat ?p # Pstr h @ replicate 8 0 @ replicate 40 0) (1 + ?p + 8)
        (InfoHash h)
      = (of_nat ?p # Pstr h @ replicate 8 0 @ InfoHash h @ replicate 20 0, 20)"
    using assms by (simp add: copy_at_fits drop_Cons' take_Cons')
  have c4: "copy_at (of_nat ?p # Pstr h @ replicate 8 0 @ InfoHash h @ replicate 20 0)
        (1 + ?p + 8 + 20) (PeerID h)
      = (of_nat ?p # Pstr h @ replicate 8 0 @ InfoHash h @ PeerID h, 20)"
    using assms by (simp add: copy_at_fits drop_Cons' take_Cons')
  show ?thesis
    unfolding Serialize_handshake_def Let_def c1 prod.case c2 c3 c4 ..
qed

lemma bytes_of_pstr:
  "bytes_of ''BitTorrent protocol'' =
     [66, 105, 116, 84, 111, 114, 114, 101, 110, 116, 32, 112, 114, 111, 116, 111, 99, 111, 108]"
  by (simp add: bytes_of_def)

lemma Read_handshake_Serialize:
  assumes "length infoHash = 20" and "length peerID = 20"
  shows "Read_handshake (Serialize_handshake (New_handshake infoHash peerID) @ rest)
           = (Inr (New_handshake infoHash peerID), rest)"
proof -
  have ser: "Serialize_handshake (New_handshake infoHash peerID)
      = 19 # bytes_of ''BitTorrent protocol'' @ replicate 8 0 @ infoHash @ peerID"
    using assms by (simp add: Serialize_handshake_eq New_handshake_def bytes_of_def)
  have len: "length (bytes_of ''BitTorrent protocol'') = 19"
    by (simp add: bytes_of_def)
  show ?thesis
    unfolding ser using assms len
    by (simp add: Read_handshake_def ReadFull_def Let_def subslice_def copy_at_fits
          New_handshake_def)
qed

lemma InfoHash_New_handshake: "InfoHash (New_handshake a b) = a"
  by (simp add: New_handshake_def)

text \<open>
  C5. A handshake built by \<^verbatim>\<open>New\<close> from two 20-byte arrays is read back unchanged from
  its serialization (whatever follows it on the stream is left unread); the
  serialization has 68 bytes and starts with \<open>0x13\<close> and the 19 bytes of
  "BitTorrent protocol"; and a stream whose first byte is 0 is refused.
\<close>

theorem handshake_round_trip:
  assumes "length infoHash = 20" and "length peerID = 20"
  shows "Read_handshake (Serialize_handshake (New_handshake infoHash peerID) @ rest)
           = (Inr (New_handshake infoHash peerID), rest)
       \<and> length (Serialize_handshake (New_handshake infoHash peerID)) = 68
       \<and> take 20 (Serialize_handshake (New_handshake infoHash peerID))
           = [0x13, 66, 105, 116, 84, 111, 114, 114, 101, 110, 116, 32,
              112, 114, 111, 116, 111, 99, 111, 108]
       \<and> Read_handshake (0 # rest) = (Inl LengthPstrZero, rest)"
proof -
  let ?h = "New_handshake infoHash peerID"
  have ser: "Serialize_handshake ?h
      = 19 # bytes_of ''BitTorrent protocol'' @ replicate 8 0 @ infoHash @ peerID"
    using assms by (simp add: Serialize_handshake_eq New_handshake_def bytes_of_def)
  have len: "length (bytes_of ''BitTorrent protocol'') = 19"
    by (simp add: bytes_of_def)
  have rd: "Read_handshake (Serialize_handshake ?h @ rest) = (Inr ?h, rest)"
    using assms by (rule Read_handshake_Serialize)
  have l68: "length (Serialize_handshake ?h) = 68"
    unfolding ser using assms len by simp
  have pre: "take 20 (Serialize_handshake ?h)
      = [0x13, 66, 105, 116, 84, 111, 114, 114, 101, 110, 116, 32,
         112, 114, 111, 116, 111, 99, 111, 108]"
    unfolding ser bytes_of_pstr by simp
  have z: "Read_handshake (0 # rest) = (Inl LengthPstrZero, rest)"
    by (simp add: Read_handshake_def ReadFull_def)
  show ?thesis using rd l68 pre z by blast
qed

theorem handshake_round_trip_witness:
  "Read_handshake (Serialize_handshake (New_handshake (replicate 20 7) (replicate 20 9)) @ [1, 2])
      = (Inr (New_handshake (replicate 20 7) (replicate 20 9)), [1, 2])
   \<and> length (Serialize_handshake (New_handshake (replicate 20 7) (replicate 20 9))) = 68"
  using handshake_round_trip [of "replicate 20 7" "replicate 20 9" "[1, 2]"] by simp

section \<open>Message framing\<close>

lemma Serialize_Some_eq:
  assumes "length (Payload msg) + 5 < 2 ^ 32"
  shows "Serialize (Some msg) =
     Inr (PutUint32 (of_nat (length (Payload msg) + 1)) @ ID msg # Payload msg)"
proof -
  let ?n = "length (Payload msg)"
  have e: "(of_nat (?n + 1) :: 32 word) + 4 = of_nat (?n + 5)" by simp
  have u: "unat ((of_nat (?n + 1) :: 32 word) + 4) = ?n + 5"
    unfolding e by (rule unat_of_nat32) (use assms in simp)
  have r: "replicate (?n + 5) (0::byte) = replicate 4 0 @ 0 # replicate ?n 0"
  proof -
    have "replicate (?n + 5) (0::byte) = replicate (4 + Suc ?n) 0" by simp
    also have "\<dots> = replicate 4 0 @ replicate (Suc ?n) 0" by (rule replicate_add)
    finally show ?thesis by simp
  qed
  show ?thesis
    unfolding Serialize_def option.case Let_def u r
    by (simp add: length_PutUint32 nth_append list_update_append copy_at_def Let_def)
qed


text \<open>
  C4. A message whose payload has fewer than \<open>2^32 - 5\<close> bytes is read back unchanged
  from its serialization (whatever follows it on the stream is left unread). The
  keep-alive serializes to the four bytes \<open>00 00 00 00\<close>, and a frame whose length prefix
  is 0 is read as the keep-alive, without error.
\<close>

theorem message_round_trip:
  "(length (Payload msg) + 5 < 2 ^ 32 \<longrightarrow>
      (\<exists>bs. Serialize (Some msg) = Inr bs
            \<and> Read_message (bs @ rest) = (Inr (Some msg), rest)))
   \<and> Serialize None = Inr [0, 0, 0, 0]
   \<and> Read_message (0 # 0 # 0 # 0 # rest) = (Inr None, rest)"
proof -
  have a: "\<exists>bs. Serialize (Some msg) = Inr bs
             \<and> Read_message (bs @ rest) = (Inr (Some msg), rest)"
    if h: "length (Payload msg) + 5 < 2 ^ 32"
  proof -
    let ?n = "length (Payload msg)"
    let ?len = "of_nat (?n + 1) :: 32 word"
    have un: "unat ?len = ?n + 1"
      by (rule unat_of_nat32) (use h in simp)
    then have nz: "?len \<noteq> 0" by (metis Suc_eq_plus1 nat.distinct(1) unat_0)
    have tk: "take 4 (PutUint32 ?len @ ID msg # Payload msg @ rest) = PutUint32 ?len"
      by (simp add: length_PutUint32)
    have dr: "drop 4 (PutUint32 ?len @ ID msg # Payload msg @ rest)
        = ID msg # Payload msg @ rest"
      by (simp add: length_PutUint32)
    have "Read_message ((PutUint32 ?len @ ID msg # Payload msg) @ rest)
        = (Inr (Some msg), rest)"
      using nz un
      by (simp add: Read_message_def ReadFull_def length_PutUint32 tk dr Uint32_PutUint32
            Let_def del: of_nat_add of_nat_Suc)
    then show ?thesis using Serialize_Some_eq[OF h] by blast
  qed
  have b: "Serialize None = Inr [0, 0, 0, 0]"
    by (simp add: Serialize_def numeral_eq_Suc)
  have c: "Read_message (0 # 0 # 0 # 0 # rest) = (Inr None, rest)"
    by (simp add: Read_message_def ReadFull_def Uint32_def)
  show ?thesis using a b c by blast
qed

theorem message_round_trip_witness:
  "length (Payload \<lparr>ID = 7, Payload = [1, 2, 3]\<rparr>) + 5 < (2::nat) ^ 32
   \<and> Serialize (Some \<lparr>ID = 7, Payload = [1, 2, 3]\<rparr>) = Inr [0, 0, 0, 4, 7, 1, 2, 3]
   \<and> Read_message ([0, 0, 0, 4, 7, 1, 2, 3] @ [9])
        = (Inr (Some \<lparr>ID = 7, Payload = [1, 2, 3]\<rparr>), [9])"
proof -
  have s: "Serialize (Some \<lparr>ID = 7, Payload = [1, 2, 3]\<rparr>) = Inr [0, 0, 0, 4, 7, 1, 2, 3]"
    by (simp add: Serialize_Some_eq PutUint32_def)
  show ?thesis
    using message_round_trip [of "\<lparr>ID = 7, Payload = [1, 2, 3]\<rparr>" "[9]"] s by auto
qed

text \<open>
  The claim as stated, for every payload, fails: the length prefix is a \<^verbatim>\<open>uint32\<close>, and a
  payload of \<open>2^32\<close> bytes is serialized as an empty message.
\<close>

theorem message_round_trip_counterexample:
  "Serialize (Some \<lparr>ID = 0, Payload = replicate (2 ^ 32) 0\<rparr>) = Inr [0, 0, 0, 1, 0]
   \<and> Read_message [0, 0, 0, 1, 0] = (Inr (Some \<lparr>ID = 0, Payload = []\<rparr>), [])
   \<and> \<lparr>ID = 0, Payload = []\<rparr> \<noteq> \<lparr>ID = 0, Payload = replicate (2 ^ 32) (0::byte)\<rparr>"
  by (simp add: Serialize_def Read_message_def ReadFull_def Uint32_def PutUint32_def
        copy_at_def Let_def)

section \<open>Parsing a piece message\<close>

text \<open>
  The index, the offset and the block that a piece message carries: the big-endian
  numbers in bytes 0..3 and 4..7 of the payload, and the bytes after them.
\<close>

definition piece_index :: "Message \<Rightarrow> int" where
  "piece_index msg = big_endian_at (Payload msg) 0"

definition piece_begin :: "Message \<Rightarrow> int" where
  "piece_begin msg = big_endian_at (Payload msg) 4"

definition piece_data :: "Message \<Rightarrow> byte list" where
  "piece_data msg = drop 8 (Payload msg)"

lemma piece_begin_nonneg: "0 \<le> piece_begin msg"
  using uint_byte_bounds by (simp add: piece_begin_def big_endian_at_def)

text \<open>
  C2. \<^verbatim>\<open>ParsePiece\<close> fails exactly when the id is not 7, or the payload has fewer than 8
  bytes, or the index differs from the expected one, or the offset is not below the
  length of the buffer, or the block ends beyond the buffer. Otherwise it returns the
  length of the block and the buffer with the block copied in at the offset and every
  other byte unchanged.
\<close>

theorem ParsePiece_spec:
  "(isl (ParsePiece msg expectedIndex dst) \<longleftrightarrow>
      ID msg \<noteq> 7 \<or> length (Payload msg) < 8 \<or> piece_index msg \<noteq> expectedIndex
      \<or> piece_begin msg \<ge> int (length dst)
      \<or> piece_begin msg + int (length (piece_data msg)) > int (length dst))
   \<and> (\<not> isl (ParsePiece msg expectedIndex dst) \<longrightarrow>
        (\<exists>out'. ParsePiece msg expectedIndex dst = Inr (out', int (length (piece_data msg)))
           \<and> length out' = length dst
           \<and> (\<forall>i < length dst. out' ! i =
                 (if piece_begin msg \<le> int i
                     \<and> int i < piece_begin msg + int (length (piece_data msg))
                  then piece_data msg ! (i - nat (piece_begin msg)) else dst ! i))))"
proof (cases "ID msg \<noteq> 7 \<or> length (Payload msg) < 8")
  case True
  then show ?thesis by (auto simp: ParsePiece_def MsgPiece_def)
next
  case False
  then have id: "ID msg = 7" and len: "8 \<le> length (Payload msg)" by auto
  have ix: "uint (Uint32 (subslice (Payload msg) 0 4)) = piece_index msg"
    using uint_Uint32_slice[of 0 "Payload msg"] len by (simp add: piece_index_def)
  have bg: "uint (Uint32 (subslice (Payload msg) 4 8)) = piece_begin msg"
    using uint_Uint32_slice[of 4 "Payload msg"] len by (simp add: piece_begin_def)
  have pp: "ParsePiece msg expectedIndex dst =
     (if piece_index msg \<noteq> expectedIndex
      then Inl (ExpectedIndex expectedIndex (piece_index msg))
      else if piece_begin msg \<ge> int (length dst)
      then Inl (BeginTooHigh (piece_begin msg) (length dst))
      else if piece_begin msg + int (length (piece_data msg)) > int (length dst)
      then Inl (DataTooLong (length (piece_data msg)) (piece_begin msg) (length dst))
      else Inr (fst (copy_at dst (nat (piece_begin msg)) (piece_data msg)),
                int (length (piece_data msg))))"
    using id len by (simp add: ParsePiece_def MsgPiece_def ix bg Let_def piece_data_def)
  show ?thesis
  proof (cases "piece_index msg \<noteq> expectedIndex \<or> piece_begin msg \<ge> int (length dst)
      \<or> piece_begin msg + int (length (piece_data msg)) > int (length dst)")
    case True
    then show ?thesis unfolding pp by auto
  next
    case ok: False
    let ?b = "nat (piece_begin msg)"
    let ?d = "piece_data msg"
    have fits: "?b + length ?d \<le> length dst"
      using ok piece_begin_nonneg[of msg] by linarith
    have res: "ParsePiece msg expectedIndex dst
        = Inr (take ?b dst @ ?d @ drop (?b + length ?d) dst, int (length ?d))"
      unfolding pp using ok by (simp add: copy_at_fits[OF fits])
    have l: "length (take ?b dst @ ?d @ drop (?b + length ?d) dst) = length dst"
      using fits by simp
    have n: "(take ?b dst @ ?d @ drop (?b + length ?d) dst) ! i =
        (if piece_begin msg \<le> int i \<and> int i < piece_begin msg + int (length ?d)
         then ?d ! (i - ?b) else dst ! i)" if "i < length dst" for i
      using fits that piece_begin_nonneg[of msg] by (auto simp: nth_append min_def)
    show ?thesis
      using ok id len res l n by auto
  qed
qed

theorem ParsePiece_spec_witness:
  "\<not> isl (ParsePiece \<lparr>ID = 7, Payload = [0, 0, 0, 3, 0, 0, 0, 1, 9, 8]\<rparr> 3 [0, 0, 0, 0])
   \<and> ParsePiece \<lparr>ID = 7, Payload = [0, 0, 0, 3, 0, 0, 0, 1, 9, 8]\<rparr> 3 [0, 0, 0, 0]
       = Inr ([0, 9, 8, 0], 2)
   \<and> isl (ParsePiece \<lparr>ID = 7, Payload = [0, 0, 0, 3, 0, 0, 0, 3, 9, 8]\<rparr> 3 [0, 0, 0, 0])"
proof -
  have a: "ParsePiece \<lparr>ID = 7, Payload = [0, 0, 0, 3, 0, 0, 0, 1, 9, 8]\<rparr> 3 [0, 0, 0, 0]
       = Inr ([0, 9, 8, 0], 2)"
    by (simp add: ParsePiece_def MsgPiece_def subslice_def Uint32_def copy_at_def Let_def)
  have b: "isl (ParsePiece \<lparr>ID = 7, Payload = [0, 0, 0, 3, 0, 0, 0, 3, 9, 8]\<rparr> 3 [0, 0, 0, 0])"
    using ParsePiece_spec [of "\<lparr>ID = 7, Payload = [0, 0, 0, 3, 0, 0, 0, 3, 9, 8]\<rparr>" 3
        "[0, 0, 0, 0]"]
    by (simp add: piece_index_def piece_begin_def piece_data_def big_endian_at_def)
  show ?thesis using a b by simp
qed


section \<open>Piece sizes\<close>

lemma int64_id: "- (2 ^ 63) \<le> x \<Longrightarrow> x < 2 ^ 63 \<Longrightarrow> int64 x = x"
  by (simp add: int64_def)

lemma calculatePieceSize_in_range:
  assumes pl: "0 < PieceLength t" and i0: "0 \<le> i"
    and fit: "(i + 1) * PieceLength t < 2 ^ 63"
    and le: "i * PieceLength t \<le> Length t"
  shows "calculatePieceSize t i =
     (if (i + 1) * PieceLength t > Length t then Length t - i * PieceLength t
      else PieceLength t)"
proof -
  let ?pl = "PieceLength t"
  have b0: "0 \<le> i * ?pl" using pl i0 by simp
  have e: "(i + 1) * ?pl = i * ?pl + ?pl" by (simp add: algebra_simps)
  have b1: "i * ?pl < 2 ^ 63" using fit pl e by linarith
  have bg: "int64 (i * ?pl) = i * ?pl"
    using b0 b1 by (intro int64_id) auto
  have en: "int64 (i * ?pl + ?pl) = i * ?pl + ?pl"
    using b0 pl fit e by (intro int64_id) auto
  show ?thesis
  proof (cases "(i + 1) * ?pl > Length t")
    case True
    have "int64 (Length t - i * ?pl) = Length t - i * ?pl"
      using True le fit e pl b0 by (intro int64_id) auto
    then show ?thesis
      using True
      by (simp add: calculatePieceSize_def calcultateBoundsForPiece_def bg en e Let_def)
  next
    case False
    have "int64 (i * ?pl + ?pl - i * ?pl) = ?pl"
      using pl fit e b0 by (intro int64_id[THEN trans]) auto
    then show ?thesis
      using False
      by (simp add: calculatePieceSize_def calcultateBoundsForPiece_def bg en e Let_def)
  qed
qed

text \<open>
  C9. For a manifest with \<open>P \<ge> 1\<close> pieces, a positive piece length, a total length in
  \<open>((P - 1) * piece_length, P * piece_length]\<close>, and \<open>P * piece_length\<close> below \<open>2^63\<close> (it
  fits Go's \<^verbatim>\<open>int\<close>): every piece but the last has the size \<open>piece_length\<close>, and the
  last has the size \<open>total_length - (P - 1) * piece_length\<close>, which lies in
  \<open>[1, piece_length]\<close>.
\<close>

theorem calculatePieceSize_spec:
  fixes t :: Torrent
  defines "P \<equiv> int (length (PieceHashes t))"
  assumes P1: "1 \<le> P" and pl: "0 < PieceLength t"
    and lo: "(P - 1) * PieceLength t < Length t" and hi: "Length t \<le> P * PieceLength t"
    and fit: "P * PieceLength t < 2 ^ 63"
  shows "(\<forall>i. 0 \<le> i \<and> i < P - 1 \<longrightarrow> calculatePieceSize t i = PieceLength t)
     \<and> calculatePieceSize t (P - 1) = Length t - (P - 1) * PieceLength t
     \<and> 1 \<le> calculatePieceSize t (P - 1) \<and> calculatePieceSize t (P - 1) \<le> PieceLength t"
proof -
  let ?pl = "PieceLength t"
  have inner: "calculatePieceSize t i = ?pl" if i: "0 \<le> i" "i < P - 1" for i
  proof -
    have m: "(i + 1) * ?pl \<le> (P - 1) * ?pl"
      using i pl by (intro mult_right_mono) auto
    have m2: "(P - 1) * ?pl \<le> P * ?pl"
      using pl by (intro mult_right_mono) auto
    have "i * ?pl \<le> (i + 1) * ?pl" using pl by (intro mult_right_mono) auto
    then have le: "i * ?pl \<le> Length t" using m lo by linarith
    have f: "(i + 1) * ?pl < 2 ^ 63" using m m2 fit by linarith
    show ?thesis
      using calculatePieceSize_in_range[OF pl i(1) f le] m lo by simp
  qed
  have f: "(P - 1 + 1) * ?pl < 2 ^ 63" using fit by simp
  have last: "calculatePieceSize t (P - 1) =
      (if P * ?pl > Length t then Length t - (P - 1) * ?pl else ?pl)"
    using calculatePieceSize_in_range[OF pl _ f] P1 lo by simp
  have e: "P * ?pl = (P - 1) * ?pl + ?pl" by (simp add: algebra_simps)
  have l1: "calculatePieceSize t (P - 1) = Length t - (P - 1) * ?pl"
    using last hi e by (auto simp: not_less)
  show ?thesis
    using inner l1 lo hi e by auto
qed

text \<open>Two pieces of 32768 bytes for a file of 49152 bytes: the last piece has 16384.\<close>

definition torrent_two_pieces :: Torrent where
  "torrent_two_pieces =
     \<lparr>Peers = [], PeerId = replicate 20 0, t_InfoHash = replicate 20 0,
      PieceHashes = [replicate 20 0, replicate 20 0],
      PieceLength = 32768, Length = 49152, Name = ''two pieces''\<rparr>"

theorem calculatePieceSize_spec_witness:
  "calculatePieceSize torrent_two_pieces 0 = 32768
   \<and> calculatePieceSize torrent_two_pieces 1 = 16384"
  using calculatePieceSize_spec[of torrent_two_pieces] by (simp add: torrent_two_pieces_def)

text \<open>
  Without the bound the claim fails. Two pieces of \<open>2^62\<close> bytes for a file of
  \<open>2^62 + 1\<close> bytes meet every condition of the claim as it is stated, the last piece
  should have 1 byte, and \<^verbatim>\<open>begin + t.PieceLength\<close> wraps around to \<open>- 2^63\<close>: the size
  computed is \<open>2^62\<close>.
\<close>

definition torrent_overflow :: Torrent where
  "torrent_overflow =
     \<lparr>Peers = [], PeerId = replicate 20 0, t_InfoHash = replicate 20 0,
      PieceHashes = [replicate 20 0, replicate 20 0],
      PieceLength = 2 ^ 62, Length = 2 ^ 62 + 1, Name = ''overflow''\<rparr>"

theorem calculatePieceSize_counterexample:
  "1 \<le> int (length (PieceHashes torrent_overflow)) \<and> 0 < PieceLength torrent_overflow
   \<and> (int (length (PieceHashes torrent_overflow)) - 1) * PieceLength torrent_overflow
        < Length torrent_overflow
   \<and> Length torrent_overflow
        \<le> int (length (PieceHashes torrent_overflow)) * PieceLength torrent_overflow
   \<and> Length torrent_overflow < 2 ^ 63
   \<and> calculatePieceSize torrent_overflow (int (length (PieceHashes torrent_overflow)) - 1)
        = 2 ^ 62
   \<and> Length torrent_overflow
        - (int (length (PieceHashes torrent_overflow)) - 1) * PieceLength torrent_overflow = 1"
  by (simp add: torrent_overflow_def calculatePieceSize_def calcultateBoundsForPiece_def
        int64_def Let_def)


section \<open>Session setup\<close>

lemma Conn_Write_inbound: "inbound (snd (Conn_Write conn bs)) = inbound conn"
  by (auto simp: Conn_Write_def split: list.splits)

lemma completeHandshake_cases:
  "completeHandshake conn infoHash peerID = (res, conn1) \<Longrightarrow>
   (case res of
      Inl err \<Rightarrow> True
    | Inr h \<Rightarrow> \<exists>r1. Read_handshake (inbound conn) = (Inr h, r1) \<and> InfoHash h = infoHash
                  \<and> inbound conn1 = r1)"
  using Conn_Write_inbound[of conn "Serialize_handshake (New_handshake infoHash peerID)"]
  by (auto simp: completeHandshake_def Let_def
      split: prod.splits option.splits sum.splits if_splits)

lemma receiveBitfield_cases:
  "receiveBitfield conn = (res, conn1) \<Longrightarrow>
   (case res of
      Inl err \<Rightarrow> True
    | Inr bf \<Rightarrow> \<exists>m r2. Read_message (inbound conn) = (Inr (Some m), r2) \<and> ID m = MsgBitfield
                  \<and> bf = Payload m \<and> conn1 = conn\<lparr>inbound := r2\<rparr>)"
  by (auto simp: receiveBitfield_def split: prod.splits option.splits sum.splits if_splits)

lemma New_cases:
  assumes "New (Inr conn) peer peerID infoHash = (res, co)"
  shows "(case res of
            Inl err \<Rightarrow> (\<exists>c1. co = Some c1 \<and> closed c1)
          | Inr cl \<Rightarrow>
              Choked cl \<and> co = Some (Conn cl)
              \<and> (\<exists>h r1 m r2. Read_handshake (inbound conn) = (Inr h, r1)
                    \<and> InfoHash h = infoHash
                    \<and> Read_message r1 = (Inr (Some m), r2)
                    \<and> ID m = 5 \<and> Bitfield cl = Payload m))
       \<and> (\<forall>h r1. Read_handshake (inbound conn) = (Inr h, r1) \<longrightarrow> InfoHash h \<noteq> infoHash
             \<longrightarrow> isl res)
       \<and> (\<forall>h r1 mo r2. Read_handshake (inbound conn) = (Inr h, r1)
             \<longrightarrow> Read_message r1 = (Inr mo, r2)
             \<longrightarrow> (mo = None \<or> ID (the mo) \<noteq> 5) \<longrightarrow> isl res)"
proof -
  obtain hres conn1 where ch: "completeHandshake conn infoHash peerID = (hres, conn1)"
    by (cases "completeHandshake conn infoHash peerID") auto
  show ?thesis
  proof (cases hres)
    case (Inl err)
    then show ?thesis
      using assms ch by (auto simp: New_def Conn_Close_def)
  next
    case (Inr h)
    then obtain r1 where rh: "Read_handshake (inbound conn) = (Inr h, r1)"
      and ih: "InfoHash h = infoHash" and in1: "inbound conn1 = r1"
      using completeHandshake_cases[OF ch] by auto
    obtain bres conn2 where rb: "receiveBitfield conn1 = (bres, conn2)"
      by (cases "receiveBitfield conn1") auto
    show ?thesis
    proof (cases bres)
      case (Inl err)
      then show ?thesis
        using assms ch Inr rb by (auto simp: New_def Conn_Close_def)
    next
      case bf: (Inr bf)
      then obtain m r2 where rm: "Read_message r1 = (Inr (Some m), r2)"
        and idm: "ID m = MsgBitfield" and p: "bf = Payload m"
        using receiveBitfield_cases[OF rb] in1 by auto
      have res: "res = Inr \<lparr>Conn = conn2, Choked = True, Bitfield = bf, cl_peer = peer,
                          cl_infoHash = infoHash, cl_peerID = peerID\<rparr>"
        and co: "co = Some conn2"
        using assms ch Inr rb bf by (auto simp: New_def)
      show ?thesis
        using res co rh ih rm idm p by (auto simp: MsgBitfield_def)
    qed
  qed
qed

text \<open>
  C7. Once the peer is dialled, every error of \<^verbatim>\<open>New\<close> leaves the connection closed. \<^verbatim>\<open>New\<close>
  fails when the handshake read back carries another info hash, when the first frame
  after the handshake is a keep-alive, and when it is a message whose id is not 5. When
  \<^verbatim>\<open>New\<close> succeeds the client is choked, the handshake read back carried the expected
  info hash, and the bitfield is the payload of the first frame after it, a message
  with the id 5.
\<close>

theorem New_spec:
  "(case New (Inr conn) peer peerID infoHash of
      (Inl err, co) \<Rightarrow> (\<exists>c1. co = Some c1 \<and> closed c1)
    | (Inr cl, co) \<Rightarrow>
        Choked cl \<and> co = Some (Conn cl)
        \<and> (\<exists>h r1 m r2. Read_handshake (inbound conn) = (Inr h, r1)
              \<and> InfoHash h = infoHash
              \<and> Read_message r1 = (Inr (Some m), r2)
              \<and> ID m = 5 \<and> Bitfield cl = Payload m))
   \<and> (\<forall>h r1. Read_handshake (inbound conn) = (Inr h, r1) \<longrightarrow> InfoHash h \<noteq> infoHash
         \<longrightarrow> isl (fst (New (Inr conn) peer peerID infoHash)))
   \<and> (\<forall>h r1 r2. Read_handshake (inbound conn) = (Inr h, r1)
         \<longrightarrow> Read_message r1 = (Inr None, r2)
         \<longrightarrow> isl (fst (New (Inr conn) peer peerID infoHash)))
   \<and> (\<forall>h r1 m r2. Read_handshake (inbound conn) = (Inr h, r1)
         \<longrightarrow> Read_message r1 = (Inr (Some m), r2) \<longrightarrow> ID m \<noteq> 5
         \<longrightarrow> isl (fst (New (Inr conn) peer peerID infoHash)))"
proof -
  obtain res co where n: "New (Inr conn) peer peerID infoHash = (res, co)"
    by (cases "New (Inr conn) peer peerID infoHash") auto
  show ?thesis
    using New_cases[OF n] n by (auto split: sum.splits)
qed

text \<open>
  Three peers, for a client with the info hash \<open>01 .. 01\<close>: one that answers with the
  same info hash and then a bitfield, one of another swarm, and one that sends a
  keep-alive where the bitfield should be.
\<close>

definition peer0 :: Peer where "peer0 = \<lparr>IP = [127, 0, 0, 1], Port = 6881\<rparr>"

definition conn_ok :: Conn where
  "conn_ok = \<lparr>inbound = Serialize_handshake (New_handshake (replicate 20 1) (replicate 20 3))
                 @ [0, 0, 0, 2, 5, 192],
              write_results = [], outbound = [], closed = False\<rparr>"

definition conn_other_swarm :: Conn where
  "conn_other_swarm =
     \<lparr>inbound = Serialize_handshake (New_handshake (replicate 20 9) (replicate 20 3))
                 @ [0, 0, 0, 2, 5, 192],
      write_results = [], outbound = [], closed = False\<rparr>"

definition conn_keep_alive :: Conn where
  "conn_keep_alive =
     \<lparr>inbound = Serialize_handshake (New_handshake (replicate 20 1) (replicate 20 3))
                 @ [0, 0, 0, 0],
      write_results = [], outbound = [], closed = False\<rparr>"

lemma Read_message_bitfield:
  "Read_message [0, 0, 0, 2, 5, 192] = (Inr (Some \<lparr>ID = 5, Payload = [192]\<rparr>), [])"
  by (simp add: Read_message_def ReadFull_def Uint32_def)

lemma New_conn_ok:
  "fst (New (Inr conn_ok) peer0 (replicate 20 2) (replicate 20 1)) =
     Inr \<lparr>Conn = \<lparr>inbound = [], write_results = [],
                  outbound = [Serialize_handshake
                                (New_handshake (replicate 20 1) (replicate 20 2))],
                  closed = False\<rparr>,
          Choked = True, Bitfield = [192], cl_peer = peer0,
          cl_infoHash = replicate 20 1, cl_peerID = replicate 20 2\<rparr>"
  by (simp add: New_def completeHandshake_def receiveBitfield_def Conn_Write_def conn_ok_def
        Read_handshake_Serialize Read_message_bitfield InfoHash_New_handshake MsgBitfield_def
        Let_def)

theorem New_spec_witness:
  "Choked (projr (fst (New (Inr conn_ok) peer0 (replicate 20 2) (replicate 20 1))))
   \<and> Bitfield (projr (fst (New (Inr conn_ok) peer0 (replicate 20 2) (replicate 20 1)))) = [192]
   \<and> Read_handshake (inbound conn_other_swarm)
       = (Inr (New_handshake (replicate 20 9) (replicate 20 3)), [0, 0, 0, 2, 5, 192])
   \<and> InfoHash (New_handshake (replicate 20 9) (replicate 20 3)) \<noteq> replicate 20 1
   \<and> isl (fst (New (Inr conn_other_swarm) peer0 (replicate 20 2) (replicate 20 1)))
   \<and> Read_handshake (inbound conn_keep_alive)
       = (Inr (New_handshake (replicate 20 1) (replicate 20 3)), [0, 0, 0, 0])
   \<and> Read_message [0, 0, 0, 0] = (Inr None, [])
   \<and> isl (fst (New (Inr conn_keep_alive) peer0 (replicate 20 2) (replicate 20 1)))"
proof -
  have a: "Read_handshake (inbound conn_other_swarm)
       = (Inr (New_handshake (replicate 20 9) (replicate 20 3)), [0, 0, 0, 2, 5, 192])"
    by (simp add: conn_other_swarm_def Read_handshake_Serialize)
  have b: "InfoHash (New_handshake (replicate 20 9) (replicate 20 3)) \<noteq> replicate 20 1"
    by (simp add: InfoHash_New_handshake)
  have c: "Read_handshake (inbound conn_keep_alive)
       = (Inr (New_handshake (replicate 20 1) (replicate 20 3)), [0, 0, 0, 0])"
    by (simp add: conn_keep_alive_def Read_handshake_Serialize)
  have d: "Read_message [0, 0, 0, 0] = (Inr None, [])"
    by (simp add: Read_message_def ReadFull_def Uint32_def)
  show ?thesis
    using New_spec [where conn = conn_other_swarm and peer = peer0
          and peerID = "replicate 20 2" and infoHash = "replicate 20 1"]
      New_spec [where conn = conn_keep_alive and peer = peer0
          and peerID = "replicate 20 2" and infoHash = "replicate 20 1"]
      New_conn_ok a b c d
    by auto
qed


section \<open>The download loop\<close>

text \<open>What the trace of an attempt shows: requests, and the choke and unchoke messages.\<close>

definition is_request :: "observation \<Rightarrow> bool" where
  "is_request ob = (case event ob of Sent i b l \<Rightarrow> True | Received m \<Rightarrow> False)"

definition is_choke :: "observation \<Rightarrow> bool" where
  "is_choke ob = (case event ob of Received (Some m) \<Rightarrow> ID m = MsgChoke | _ \<Rightarrow> False)"

definition is_unchoke :: "observation \<Rightarrow> bool" where
  "is_unchoke ob = (case event ob of Received (Some m) \<Rightarrow> ID m = MsgUnchoke | _ \<Rightarrow> False)"

text \<open>The requests of a trace, in order: index, begin and length.\<close>

fun requests :: "observation list \<Rightarrow> (int \<times> int \<times> int) list" where
  "requests [] = []"
| "requests (ob # obs) =
     (case event ob of Sent i b l \<Rightarrow> (i, b, l) # requests obs | Received m \<Rightarrow> requests obs)"

definition req_index :: "int \<times> int \<times> int \<Rightarrow> int" where "req_index r = fst r"
definition req_begin :: "int \<times> int \<times> int \<Rightarrow> int" where "req_begin r = fst (snd r)"
definition req_length :: "int \<times> int \<times> int \<Rightarrow> int" where "req_length r = snd (snd r)"

text \<open>
  For the proofs: the \<^verbatim>\<open>Choked\<close> flag replayed along a trace, and the statement that every
  request of a trace went out with the replayed flag down.
\<close>

definition next_choked :: "bool \<Rightarrow> observation \<Rightarrow> bool" where
  "next_choked ch ob = (if is_unchoke ob then False else if is_choke ob then True else ch)"

fun sent_unchoked :: "bool \<Rightarrow> observation list \<Rightarrow> bool" where
  "sent_unchoked ch [] = True"
| "sent_unchoked ch (ob # obs) =
     ((is_request ob \<longrightarrow> \<not> ch) \<and> sent_unchoked (next_choked ch ob) obs)"

lemma send_Choked: "Choked (snd (send c msg)) = Choked c"
  by (auto simp: send_def Conn_Write_def split: sum.splits list.splits prod.splits)

lemma SendRequest_Choked: "SendRequest c i b l = (err, c1) \<Longrightarrow> Choked c1 = Choked c"
  using send_Choked[of c "NewRequest i b l"] by (simp add: SendRequest_def)

lemma downloadLoop_unfold:
  "downloadLoop pw st =
     (if downloaded st < pw_length pw then
        (case (if \<not> Choked (client st) then requestLoop pw st else (None, st)) of
           (Some err, st1) \<Rightarrow> (Some err, st1)
         | (None, st1) \<Rightarrow>
             (case readMessage st1 of
                (Some err, st2) \<Rightarrow> (Some err, st2)
              | (None, st2) \<Rightarrow> downloadLoop pw st2))
      else (None, st))"
  by (rule downloadLoop.simps)

text \<open>
  An invariant of the whole attempt: kept by a request that goes out while the session
  is unchoked, by a request that fails, and by reading a frame.
\<close>

lemma downloadLoop_invariant:
  assumes init: "P st"
    and sent: "\<And>s c. P s \<Longrightarrow> \<not> Choked (client s) \<Longrightarrow> backlog s < MaxBacklog \<Longrightarrow>
        requested s < pw_length pw \<Longrightarrow>
        SendRequest (client s) (pw_index pw) (requested s) (blockSize pw s) = (None, c) \<Longrightarrow>
        P (observe (Sent (pw_index pw) (requested s) (blockSize pw s))
             (s\<lparr>client := c, backlog := backlog s + 1,
                requested := requested s + blockSize pw s\<rparr>))"
    and failed: "\<And>s e c. P s \<Longrightarrow>
        SendRequest (client s) (pw_index pw) (requested s) (blockSize pw s) = (Some e, c) \<Longrightarrow>
        P (s\<lparr>client := c\<rparr>)"
    and read: "\<And>s. P s \<Longrightarrow> P (snd (readMessage s))"
  shows "P (snd (downloadLoop pw st))"
  using init sent failed read
proof (induction pw st rule: downloadLoop.induct)
  case (1 pw st)
  note init = "1.prems"(1) and sent = "1.prems"(2) and failed = "1.prems"(3)
    and read = "1.prems"(4)
  show ?case
  proof (cases "downloaded st < pw_length pw")
    case False
    then have "downloadLoop pw st = (None, st)"
      by (subst downloadLoop_unfold) simp
    then show ?thesis using init by simp
  next
    case True
    obtain e1 st1 where rl:
      "(if \<not> Choked (client st) then requestLoop pw st else (None, st)) = (e1, st1)"
      by (cases "if \<not> Choked (client st) then requestLoop pw st else (None, st)") auto
    have p1: "P st1"
    proof (cases "Choked (client st)")
      case True
      then show ?thesis using rl init by simp
    next
      case False
      have "P (snd (requestLoop pw st)) \<and> \<not> Choked (client (snd (requestLoop pw st)))"
      proof (rule requestLoop_invariant[where P = "\<lambda>s. P s \<and> \<not> Choked (client s)"])
        show "P st \<and> \<not> Choked (client st)" using init False by simp
      next
        fix s c
        assume a: "P s \<and> \<not> Choked (client s)" "backlog s < MaxBacklog"
          "requested s < pw_length pw"
          "SendRequest (client s) (pw_index pw) (requested s) (blockSize pw s) = (None, c)"
        have "P (observe (Sent (pw_index pw) (requested s) (blockSize pw s))
               (s\<lparr>client := c, backlog := backlog s + 1,
                  requested := requested s + blockSize pw s\<rparr>))"
          using a by (intro sent) auto
        moreover have "\<not> Choked c" using a SendRequest_Choked by blast
        ultimately show "P (observe (Sent (pw_index pw) (requested s) (blockSize pw s))
               (s\<lparr>client := c, backlog := backlog s + 1,
                  requested := requested s + blockSize pw s\<rparr>))
            \<and> \<not> Choked (client (observe (Sent (pw_index pw) (requested s) (blockSize pw s))
               (s\<lparr>client := c, backlog := backlog s + 1,
                  requested := requested s + blockSize pw s\<rparr>)))"
          by (simp add: observe_def)
      next
        fix s e c
        assume a: "P s \<and> \<not> Choked (client s)"
          "SendRequest (client s) (pw_index pw) (requested s) (blockSize pw s) = (Some e, c)"
        have "P (s\<lparr>client := c\<rparr>)" using a by (intro failed) auto
        moreover have "\<not> Choked c" using a SendRequest_Choked by blast
        ultimately show "P (s\<lparr>client := c\<rparr>) \<and> \<not> Choked (client (s\<lparr>client := c\<rparr>))"
          by simp
      qed
      then show ?thesis using rl False by simp
    qed
    show ?thesis
    proof (cases e1)
      case (Some e)
      have "downloadLoop pw st = (Some e, st1)"
        by (subst downloadLoop_unfold) (simp add: True rl Some)
      then show ?thesis using p1 by simp
    next
      case None
      obtain e2 st2 where rm: "readMessage st1 = (e2, st2)"
        by (cases "readMessage st1") auto
      have p2: "P st2" using read[OF p1] rm by simp
      show ?thesis
      proof (cases e2)
        case (Some e)
        have "downloadLoop pw st = (Some e, st2)"
          by (subst downloadLoop_unfold) (simp add: True rl None rm Some)
        then show ?thesis using p2 by simp
      next
        case n2: None
        have eq: "downloadLoop pw st = downloadLoop pw st2"
          by (subst downloadLoop_unfold) (simp add: True rl None rm n2)
        have "P (snd (downloadLoop pw st2))"
          using "1.IH"[OF True rl[unfolded None, symmetric] refl rm[unfolded n2, symmetric]
              refl p2] sent failed read by blast
        then show ?thesis unfolding eq .
      qed
    qed
  qed
qed

text \<open>What reading one frame does to the fields that the invariants speak of.\<close>

lemma Client_Read_Choked: "Client_Read c = (res, c1) \<Longrightarrow> Choked c1 = Choked c"
  by (auto simp: Client_Read_def split: prod.splits)

lemma readMessage_switch_effect:
  assumes "readMessage_switch msg st = (err, st1)"
  shows "index st1 = index st \<and> requested st1 = requested st \<and> backlog st1 \<le> backlog st
     \<and> trace st1 = trace st
     \<and> Choked (client st1) =
         (if ID msg = MsgUnchoke then False else if ID msg = MsgChoke then True
          else Choked (client st))"
  using assms
  by (auto simp: readMessage_switch_def split: if_splits sum.splits prod.splits)

lemma readMessage_effect:
  assumes "readMessage st = (err, st1)"
  shows "index st1 = index st \<and> requested st1 = requested st \<and> backlog st1 \<le> backlog st
     \<and> ((trace st1 = trace st \<and> Choked (client st1) = Choked (client st))
        \<or> (\<exists>ob. trace st1 = trace st @ [ob] \<and> \<not> is_request ob
              \<and> choked_then ob = Choked (client st1) \<and> backlog_then ob = backlog st1
              \<and> Choked (client st1) = next_choked (Choked (client st)) ob))"
proof -
  obtain res c where cr: "Client_Read (client st) = (res, c)"
    by (cases "Client_Read (client st)") auto
  have ch: "Choked c = Choked (client st)" by (rule Client_Read_Choked[OF cr])
  show ?thesis
  proof (cases res)
    case (Inl e)
    then show ?thesis using assms cr ch by (auto simp: readMessage_def)
  next
    case (Inr mo)
    show ?thesis
    proof (cases mo)
      case None
      then have "st1 = observe (Received None) (st\<lparr>client := c\<rparr>)"
        using assms cr Inr by (simp add: readMessage_def)
      then show ?thesis
        using ch
        by (simp add: observe_def is_request_def next_choked_def is_choke_def is_unchoke_def)
    next
      case (Some msg)
      obtain e2 st2 where sw: "readMessage_switch msg (st\<lparr>client := c\<rparr>) = (e2, st2)"
        by (cases "readMessage_switch msg (st\<lparr>client := c\<rparr>)") auto
      have st1: "st1 = observe (Received (Some msg)) st2"
        using assms cr Inr Some sw by (simp add: readMessage_def)
      show ?thesis
        using readMessage_switch_effect[OF sw] ch unfolding st1
        by (simp add: observe_def is_request_def next_choked_def is_choke_def is_unchoke_def
              MsgChoke_def MsgUnchoke_def)
    qed
  qed
qed


subsection \<open>Backlog and choking\<close>

lemma sent_unchoked_append:
  "sent_unchoked ch (xs @ ys) =
     (sent_unchoked ch xs \<and> sent_unchoked (foldl next_choked ch xs) ys)"
  by (induction xs arbitrary: ch) auto

lemma foldl_next_choked_stays:
  "\<forall>ob \<in> set ys. \<not> is_unchoke ob \<Longrightarrow> foldl next_choked True ys = True"
  by (induction ys) (auto simp: next_choked_def)

definition flow_inv :: "bool \<Rightarrow> pieceProgress \<Rightarrow> bool" where
  "flow_inv ch0 st \<longleftrightarrow>
     backlog st \<le> MaxBacklog
     \<and> (\<forall>ob \<in> set (trace st). backlog_then ob \<le> MaxBacklog)
     \<and> (\<forall>ob \<in> set (trace st). is_request ob \<longrightarrow> \<not> choked_then ob)
     \<and> Choked (client st) = foldl next_choked ch0 (trace st)
     \<and> sent_unchoked ch0 (trace st)"

lemma flow_inv_sent:
  assumes "flow_inv ch0 s" "\<not> Choked (client s)" "backlog s < MaxBacklog"
    "SendRequest (client s) i (requested s) l = (None, c)"
  shows "flow_inv ch0 (observe (Sent i (requested s) l)
             (s\<lparr>client := c, backlog := backlog s + 1, requested := requested s + l\<rparr>))"
proof -
  have ch: "Choked c = Choked (client s)" by (rule SendRequest_Choked[OF assms(4)])
  show ?thesis
    using assms(1-3) ch
    by (auto simp: flow_inv_def observe_def sent_unchoked_append next_choked_def is_choke_def
          is_unchoke_def is_request_def)
qed

lemma flow_inv_failed:
  assumes "flow_inv ch0 s" "SendRequest (client s) i b l = (Some e, c)"
  shows "flow_inv ch0 (s\<lparr>client := c\<rparr>)"
  using assms SendRequest_Choked[OF assms(2)] by (auto simp: flow_inv_def)

lemma flow_inv_read:
  assumes "flow_inv ch0 s"
  shows "flow_inv ch0 (snd (readMessage s))"
proof -
  obtain err s1 where rm: "readMessage s = (err, s1)" by (cases "readMessage s") auto
  from readMessage_effect[OF rm] have b: "backlog s1 \<le> backlog s"
    and d: "(trace s1 = trace s \<and> Choked (client s1) = Choked (client s))
        \<or> (\<exists>ob. trace s1 = trace s @ [ob] \<and> \<not> is_request ob
              \<and> choked_then ob = Choked (client s1) \<and> backlog_then ob = backlog s1
              \<and> Choked (client s1) = next_choked (Choked (client s)) ob)"
    by auto
  from d have "flow_inv ch0 s1"
  proof
    assume "trace s1 = trace s \<and> Choked (client s1) = Choked (client s)"
    then show ?thesis using assms b by (auto simp: flow_inv_def)
  next
    assume "\<exists>ob. trace s1 = trace s @ [ob] \<and> \<not> is_request ob
              \<and> choked_then ob = Choked (client s1) \<and> backlog_then ob = backlog s1
              \<and> Choked (client s1) = next_choked (Choked (client s)) ob"
    then obtain ob where "trace s1 = trace s @ [ob]" "\<not> is_request ob"
      "choked_then ob = Choked (client s1)" "backlog_then ob = backlog s1"
      "Choked (client s1) = next_choked (Choked (client s)) ob" by blast
    then show ?thesis
      using assms b by (auto simp: flow_inv_def sent_unchoked_append)
  qed
  then show ?thesis using rm by simp
qed

lemma flow_inv_run:
  "flow_inv (Choked c) (snd (attemptDownloadPiece_run c pw))"
  unfolding attemptDownloadPiece_run_def
proof (rule downloadLoop_invariant[where P = "flow_inv (Choked c)"])
  show "flow_inv (Choked c) \<lparr>index = pw_index pw, client = c,
      buf = replicate (nat (pw_length pw)) 0, downloaded = 0, requested = 0, backlog = 0,
      trace = []\<rparr>"
    by (simp add: flow_inv_def MaxBacklog_def)
qed (auto intro: flow_inv_sent flow_inv_failed flow_inv_read)

text \<open>
  C3. In one run of \<^verbatim>\<open>attemptDownloadPiece\<close>, whatever the peer sends and whatever the
  length of the piece: the backlog is at most 5 after every request sent and every
  frame read, and at the end; every request goes out with the \<^verbatim>\<open>Choked\<close> flag down; and
  between a choke message read and a later request, an unchoke message was read.
\<close>

theorem backlog_cap_and_choke:
  fixes c :: Client and pw :: pieceWork
  defines "final \<equiv> snd (attemptDownloadPiece_run c pw)"
  shows "backlog final \<le> 5
     \<and> (\<forall>ob \<in> set (trace final). backlog_then ob \<le> 5)
     \<and> (\<forall>ob \<in> set (trace final). is_request ob \<longrightarrow> \<not> choked_then ob)
     \<and> (\<forall>xs ob1 ys ob2 zs.
           trace final = xs @ ob1 # ys @ ob2 # zs \<longrightarrow> is_choke ob1 \<longrightarrow> is_request ob2
           \<longrightarrow> (\<exists>ob \<in> set ys. is_unchoke ob))"
proof -
  have inv: "flow_inv (Choked c) final" unfolding final_def by (rule flow_inv_run)
  have "\<exists>ob \<in> set ys. is_unchoke ob"
    if tr: "trace final = xs @ ob1 # ys @ ob2 # zs" and c1: "is_choke ob1"
      and r2: "is_request ob2"
    for xs ob1 ys ob2 zs
  proof (rule ccontr)
    assume "\<not> (\<exists>ob \<in> set ys. is_unchoke ob)"
    then have st: "foldl next_choked True ys = True"
      by (intro foldl_next_choked_stays) auto
    have nu: "\<not> is_unchoke ob1"
      using c1 by (auto simp: is_choke_def is_unchoke_def MsgChoke_def MsgUnchoke_def
          split: event.splits option.splits)
    have "sent_unchoked (Choked c) ((xs @ [ob1]) @ ys @ ob2 # zs)"
      using inv tr by (simp add: flow_inv_def)
    then have "sent_unchoked (foldl next_choked (foldl next_choked (Choked c) (xs @ [ob1])) ys)
        (ob2 # zs)"
      by (simp only: sent_unchoked_append)
    moreover have "foldl next_choked (Choked c) (xs @ [ob1]) = True"
      using c1 nu by (simp add: next_choked_def)
    ultimately show False using st r2 by simp
  qed
  then show ?thesis
    using inv by (auto simp: flow_inv_def MaxBacklog_def)
qed

text \<open>
  A piece of four bytes, and a choked session whose peer sends a choke, an unchoke and
  then the whole piece.
\<close>

definition work4 :: pieceWork where
  "work4 = \<lparr>pw_index = 0, pw_hash = replicate 20 0, pw_length = 4\<rparr>"

definition client_choke_unchoke :: Client where
  "client_choke_unchoke =
     \<lparr>Conn = \<lparr>inbound = [0, 0, 0, 1, 0] @ [0, 0, 0, 1, 1]
                         @ [0, 0, 0, 13, 7, 0, 0, 0, 0, 0, 0, 0, 0, 1, 2, 3, 4],
              write_results = [], outbound = [], closed = False\<rparr>,
      Choked = True, Bitfield = [128], cl_peer = \<lparr>IP = [127, 0, 0, 1], Port = 6881\<rparr>,
      cl_infoHash = replicate 20 1, cl_peerID = replicate 20 2\<rparr>"

lemma client_choke_unchoke_trace:
  "trace (snd (attemptDownloadPiece_run client_choke_unchoke work4)) =
  [\<lparr>event = Received (Some \<lparr>ID = 0, Payload = []\<rparr>), choked_then = True, backlog_then = 0\<rparr>,
   \<lparr>event = Received (Some \<lparr>ID = 1, Payload = []\<rparr>), choked_then = False, backlog_then = 0\<rparr>,
   \<lparr>event = Sent 0 0 4, choked_then = False, backlog_then = 1\<rparr>,
   \<lparr>event = Received (Some \<lparr>ID = 7, Payload = [0, 0, 0, 0, 0, 0, 0, 0, 1, 2, 3, 4]\<rparr>),
    choked_then = False, backlog_then = 0\<rparr>]"
  by code_simp

theorem backlog_cap_and_choke_witness:
  "trace (snd (attemptDownloadPiece_run client_choke_unchoke work4)) =
     [] @ \<lparr>event = Received (Some \<lparr>ID = 0, Payload = []\<rparr>), choked_then = True,
             backlog_then = 0\<rparr>
        # [\<lparr>event = Received (Some \<lparr>ID = 1, Payload = []\<rparr>), choked_then = False,
             backlog_then = 0\<rparr>]
        @ \<lparr>event = Sent 0 0 4, choked_then = False, backlog_then = 1\<rparr>
        # [\<lparr>event = Received (Some \<lparr>ID = 7, Payload = [0, 0, 0, 0, 0, 0, 0, 0, 1, 2, 3, 4]\<rparr>),
             choked_then = False, backlog_then = 0\<rparr>]
   \<and> is_choke \<lparr>event = Received (Some \<lparr>ID = 0, Payload = []\<rparr>), choked_then = True,
             backlog_then = 0\<rparr>
   \<and> is_request \<lparr>event = Sent 0 0 4, choked_then = False, backlog_then = 1\<rparr>
   \<and> is_unchoke \<lparr>event = Received (Some \<lparr>ID = 1, Payload = []\<rparr>), choked_then = False,
             backlog_then = 0\<rparr>
   \<and> backlog (snd (attemptDownloadPiece_run client_choke_unchoke work4)) \<le> 5"
  using backlog_cap_and_choke [of client_choke_unchoke work4] client_choke_unchoke_trace
  by (simp add: is_choke_def is_request_def is_unchoke_def MsgChoke_def MsgUnchoke_def)


subsection \<open>The requests of one attempt\<close>

lemma requests_append: "requests (xs @ ys) = requests xs @ requests ys"
  by (induction xs) (auto split: event.splits)

lemma requests_not_request: "\<not> is_request ob \<Longrightarrow> requests (xs @ [ob]) = requests xs"
  by (auto simp: requests_append is_request_def split: event.splits)

text \<open>The \<open>k\<close>-th block of a piece, and the invariant: the requests so far are the first blocks.\<close>

definition nth_block :: "pieceWork \<Rightarrow> nat \<Rightarrow> int \<times> int \<times> int" where
  "nth_block pw k =
     (pw_index pw, int k * MaxBlockSize, min MaxBlockSize (pw_length pw - int k * MaxBlockSize))"

definition tiling_inv :: "pieceWork \<Rightarrow> pieceProgress \<Rightarrow> bool" where
  "tiling_inv pw st \<longleftrightarrow>
     requests (trace st) = map (nth_block pw) [0..<length (requests (trace st))]
     \<and> requested st = min (pw_length pw) (int (length (requests (trace st))) * MaxBlockSize)
     \<and> (\<forall>k < length (requests (trace st)). int k * MaxBlockSize < pw_length pw)"

lemma tiling_inv_sent:
  assumes inv: "tiling_inv pw s" and r: "requested s < pw_length pw"
  shows "tiling_inv pw (observe (Sent (pw_index pw) (requested s) (blockSize pw s))
             (s\<lparr>client := c, backlog := backlog s + 1,
                requested := requested s + blockSize pw s\<rparr>))"
proof -
  let ?rs = "requests (trace s)"
  let ?n = "length ?rs"
  have rq: "requested s = int ?n * MaxBlockSize" and lt: "int ?n * MaxBlockSize < pw_length pw"
    using inv r by (auto simp: tiling_inv_def min_def split: if_splits)
  have bs: "blockSize pw s = min MaxBlockSize (pw_length pw - int ?n * MaxBlockSize)"
    by (simp add: blockSize_def rq min_def)
  let ?s1 = "observe (Sent (pw_index pw) (requested s) (blockSize pw s))
             (s\<lparr>client := c, backlog := backlog s + 1,
                requested := requested s + blockSize pw s\<rparr>)"
  have rs1: "requests (trace ?s1) = ?rs @ [nth_block pw ?n]"
    by (simp add: observe_def requests_append nth_block_def rq bs)
  have a: "requests (trace ?s1) = map (nth_block pw) [0..<length (requests (trace ?s1))]"
    unfolding rs1 using inv by (simp add: tiling_inv_def)
  have b: "requested ?s1
      = min (pw_length pw) (int (length (requests (trace ?s1))) * MaxBlockSize)"
    unfolding rs1 using lt by (simp add: observe_def rq bs min_def algebra_simps)
  have c: "\<forall>k < length (requests (trace ?s1)). int k * MaxBlockSize < pw_length pw"
    unfolding rs1 using inv lt by (auto simp: tiling_inv_def less_Suc_eq)
  show ?thesis unfolding tiling_inv_def using a b c by blast
qed

lemma tiling_inv_read:
  assumes "tiling_inv pw s"
  shows "tiling_inv pw (snd (readMessage s))"
proof -
  obtain err s1 where rm: "readMessage s = (err, s1)" by (cases "readMessage s") auto
  from readMessage_effect[OF rm] have rq: "requested s1 = requested s"
    and d: "trace s1 = trace s \<or> (\<exists>ob. trace s1 = trace s @ [ob] \<and> \<not> is_request ob)"
    by auto
  from d have "requests (trace s1) = requests (trace s)"
    by (auto simp: requests_not_request)
  then have "tiling_inv pw s1" using assms rq by (simp add: tiling_inv_def)
  then show ?thesis using rm by simp
qed

lemma tiling_inv_run:
  assumes "0 \<le> pw_length pw"
  shows "tiling_inv pw (snd (attemptDownloadPiece_run c pw))"
  unfolding attemptDownloadPiece_run_def
proof (rule downloadLoop_invariant[where P = "tiling_inv pw"])
  show "tiling_inv pw \<lparr>index = pw_index pw, client = c,
      buf = replicate (nat (pw_length pw)) 0, downloaded = 0, requested = 0, backlog = 0,
      trace = []\<rparr>"
    using assms by (simp add: tiling_inv_def)
next
  fix s c
  assume "tiling_inv pw s" "requested s < pw_length pw"
  then show "tiling_inv pw (observe (Sent (pw_index pw) (requested s) (blockSize pw s))
             (s\<lparr>client := c, backlog := backlog s + 1,
                requested := requested s + blockSize pw s\<rparr>))"
    by (rule tiling_inv_sent)
next
  fix s :: pieceProgress and c
  assume "tiling_inv pw s"
  then show "tiling_inv pw (s\<lparr>client := c\<rparr>)" by (simp add: tiling_inv_def)
next
  fix s
  assume "tiling_inv pw s"
  then show "tiling_inv pw (snd (readMessage s))" by (rule tiling_inv_read)
qed

text \<open>
  On the wire: the frame of a request, and the invariant that the writes of an attempt
  that went through are the frames of the requests of its trace, in order.
\<close>

definition request_frame :: "int \<times> int \<times> int \<Rightarrow> byte list" where
  "request_frame r =
     [0, 0, 0, 13, 6] @ PutUint32 (word_of_int (req_index r))
       @ PutUint32 (word_of_int (req_begin r)) @ PutUint32 (word_of_int (req_length r))"

lemma Serialize_NewRequest:
  "Serialize (Some (NewRequest i b l)) = Inr (request_frame (i, b, l))"
proof -
  have "length (Payload (NewRequest i b l)) + 5 < 2 ^ 32"
    by (simp add: NewRequest_def length_PutUint32)
  then show ?thesis
    by (simp add: Serialize_Some_eq request_frame_def NewRequest_def length_PutUint32
          PutUint32_def req_index_def req_begin_def req_length_def MsgRequest_def)
qed

lemma SendRequest_outbound:
  assumes "SendRequest c i b l = (err, c1)"
  shows "outbound (Conn c1) =
     (if err = None then outbound (Conn c) @ [request_frame (i, b, l)] else outbound (Conn c))"
  using assms
  by (auto simp: SendRequest_def send_def Serialize_NewRequest Conn_Write_def
      split: list.splits if_splits)

lemma readMessage_switch_outbound:
  "outbound (Conn (client (snd (readMessage_switch msg st)))) = outbound (Conn (client st))"
  using readMessage_switch_client_Conn[of msg st] by simp

lemma readMessage_outbound:
  "outbound (Conn (client (snd (readMessage st)))) = outbound (Conn (client st))"
proof -
  obtain res c where cr: "Client_Read (client st) = (res, c)"
    by (cases "Client_Read (client st)") auto
  then have oc: "outbound (Conn c) = outbound (Conn (client st))"
    by (auto simp: Client_Read_def split: prod.splits)
  show ?thesis
  proof (cases res)
    case (Inl e)
    then show ?thesis using cr oc by (simp add: readMessage_def)
  next
    case (Inr mo)
    show ?thesis
    proof (cases mo)
      case None
      then show ?thesis using cr Inr oc by (simp add: readMessage_def observe_def)
    next
      case (Some msg)
      obtain e2 st2 where sw: "readMessage_switch msg (st\<lparr>client := c\<rparr>) = (e2, st2)"
        by (cases "readMessage_switch msg (st\<lparr>client := c\<rparr>)") auto
      have "outbound (Conn (client st2)) = outbound (Conn c)"
        using readMessage_switch_outbound[of msg "st\<lparr>client := c\<rparr>"] sw by simp
      then show ?thesis
        using cr Inr Some sw oc by (simp add: readMessage_def observe_def)
    qed
  qed
qed

definition wire_inv :: "byte list list \<Rightarrow> pieceProgress \<Rightarrow> bool" where
  "wire_inv out0 st \<longleftrightarrow>
     outbound (Conn (client st)) = out0 @ map request_frame (requests (trace st))"

lemma wire_inv_run:
  "wire_inv (outbound (Conn c)) (snd (attemptDownloadPiece_run c pw))"
  unfolding attemptDownloadPiece_run_def
proof (rule downloadLoop_invariant[where P = "wire_inv (outbound (Conn c))"])
  show "wire_inv (outbound (Conn c)) \<lparr>index = pw_index pw, client = c,
      buf = replicate (nat (pw_length pw)) 0, downloaded = 0, requested = 0, backlog = 0,
      trace = []\<rparr>"
    by (simp add: wire_inv_def)
next
  fix s c1
  assume "wire_inv (outbound (Conn c)) s"
    "SendRequest (client s) (pw_index pw) (requested s) (blockSize pw s) = (None, c1)"
  then show "wire_inv (outbound (Conn c))
      (observe (Sent (pw_index pw) (requested s) (blockSize pw s))
             (s\<lparr>client := c1, backlog := backlog s + 1,
                requested := requested s + blockSize pw s\<rparr>))"
    using SendRequest_outbound[of "client s" "pw_index pw" "requested s" "blockSize pw s"
        None c1]
    by (simp add: wire_inv_def observe_def requests_append)
next
  fix s :: pieceProgress and e c1
  assume "wire_inv (outbound (Conn c)) s"
    "SendRequest (client s) (pw_index pw) (requested s) (blockSize pw s) = (Some e, c1)"
  then show "wire_inv (outbound (Conn c)) (s\<lparr>client := c1\<rparr>)"
    using SendRequest_outbound[of "client s" "pw_index pw" "requested s" "blockSize pw s"
        "Some e" c1]
    by (simp add: wire_inv_def)
next
  fix s
  assume a: "wire_inv (outbound (Conn c)) s"
  obtain err s1 where rm: "readMessage s = (err, s1)" by (cases "readMessage s") auto
  from readMessage_effect[OF rm]
  have d: "trace s1 = trace s \<or> (\<exists>ob. trace s1 = trace s @ [ob] \<and> \<not> is_request ob)"
    by auto
  then have "requests (trace s1) = requests (trace s)"
    by (auto simp: requests_not_request)
  then show "wire_inv (outbound (Conn c)) (snd (readMessage s))"
    using a readMessage_outbound[of s] rm by (simp add: wire_inv_def)
qed

text \<open>
  C6. In one run of \<^verbatim>\<open>attemptDownloadPiece\<close> for a piece of length \<open>L > 0\<close>, the requests
  sent, in order: the \<open>k\<close>-th begins at \<open>k * 16384\<close> (the first at 0, the offsets strictly
  increasing), asks for \<open>min 16384 (L - begin)\<close> bytes, between 1 and 16384, and ends
  within the piece; each request begins where the one before ends, and every request
  but the last asks for 16384 bytes. Together they tile \<open>[0, requested)\<close>, a prefix of
  \<open>[0, L)\<close>, where \<open>requested\<close> is the counter of that name at the end of the run. What
  the attempt wrote to the connection is the frames of these requests, in this order.
\<close>

theorem requests_tile_prefix:
  fixes c :: Client and pw :: pieceWork
  defines "final \<equiv> snd (attemptDownloadPiece_run c pw)"
  defines "rs \<equiv> requests (trace final)"
  assumes L: "0 < pw_length pw"
  shows "(\<forall>k < length rs.
            req_index (rs ! k) = pw_index pw
            \<and> req_begin (rs ! k) = int k * 16384
            \<and> req_length (rs ! k) = min 16384 (pw_length pw - req_begin (rs ! k))
            \<and> 0 < req_length (rs ! k) \<and> req_length (rs ! k) \<le> 16384
            \<and> req_begin (rs ! k) + req_length (rs ! k) \<le> pw_length pw)
       \<and> (\<forall>k. Suc k < length rs \<longrightarrow>
            req_begin (rs ! k) < req_begin (rs ! Suc k)
            \<and> req_begin (rs ! Suc k) = req_begin (rs ! k) + req_length (rs ! k)
            \<and> req_length (rs ! k) = 16384)
       \<and> (rs = [] \<longrightarrow> requested final = 0)
       \<and> (rs \<noteq> [] \<longrightarrow> req_begin (last rs) + req_length (last rs) = requested final)
       \<and> requested final \<le> pw_length pw
       \<and> outbound (Conn (client final)) = outbound (Conn c) @ map request_frame rs"
proof -
  have f: "outbound (Conn (client final)) = outbound (Conn c) @ map request_frame rs"
    using wire_inv_run[of c pw] unfolding final_def rs_def wire_inv_def .
  have inv: "tiling_inv pw final"
    unfolding final_def using L by (intro tiling_inv_run) simp
  let ?n = "length rs"
  have rs: "rs = map (nth_block pw) [0..<?n]"
    and rq: "requested final = min (pw_length pw) (int ?n * 16384)"
    and lt: "\<And>k. k < ?n \<Longrightarrow> int k * 16384 < pw_length pw"
    using inv unfolding tiling_inv_def rs_def MaxBlockSize_def by auto
  have nth: "rs ! k = nth_block pw k" if "k < ?n" for k
    using that by (subst rs) simp
  have a: "req_index (rs ! k) = pw_index pw
            \<and> req_begin (rs ! k) = int k * 16384
            \<and> req_length (rs ! k) = min 16384 (pw_length pw - req_begin (rs ! k))
            \<and> 0 < req_length (rs ! k) \<and> req_length (rs ! k) \<le> 16384
            \<and> req_begin (rs ! k) + req_length (rs ! k) \<le> pw_length pw" if "k < ?n" for k
    using nth[OF that] lt[OF that]
    by (simp add: nth_block_def req_index_def req_begin_def req_length_def MaxBlockSize_def)
  have b: "req_begin (rs ! k) < req_begin (rs ! Suc k)
            \<and> req_begin (rs ! Suc k) = req_begin (rs ! k) + req_length (rs ! k)
            \<and> req_length (rs ! k) = 16384" if "Suc k < ?n" for k
  proof -
    have k: "k < ?n" using that by simp
    show ?thesis
      using nth[OF k] nth[OF that] lt[OF that]
      by (simp add: nth_block_def req_index_def req_begin_def req_length_def MaxBlockSize_def)
  qed
  have c: "requested final = 0" if "rs = []"
    using rq that L by simp
  have d: "req_begin (last rs) + req_length (last rs) = requested final" if "rs \<noteq> []"
  proof -
    have n: "?n - 1 < ?n" using that by simp
    have "last rs = nth_block pw (?n - 1)"
      using that nth[OF n] by (simp add: last_conv_nth)
    moreover have "int (?n - 1) = int ?n - 1" using n by linarith
    ultimately show ?thesis
      using rq lt[OF n]
      by (simp add: nth_block_def req_begin_def req_length_def MaxBlockSize_def min_def
            algebra_simps)
  qed
  have e: "requested final \<le> pw_length pw" using rq by simp
  show ?thesis using a b c d e f by blast
qed

text \<open>
  Piece 3 with 20000 bytes, and an unchoked session whose peer stays silent: two
  requests go out, for 16384 and for 3616 bytes, before the read fails.
\<close>

definition work20000 :: pieceWork where
  "work20000 = \<lparr>pw_index = 3, pw_hash = replicate 20 0, pw_length = 20000\<rparr>"

definition client_silent :: Client where
  "client_silent =
     \<lparr>Conn = \<lparr>inbound = [], write_results = [], outbound = [], closed = False\<rparr>,
      Choked = False, Bitfield = [128], cl_peer = \<lparr>IP = [127, 0, 0, 1], Port = 6881\<rparr>,
      cl_infoHash = replicate 20 1, cl_peerID = replicate 20 2\<rparr>"

lemma SendRequest_ok:
  "write_results (Conn c) = [] \<Longrightarrow>
   SendRequest c i b l =
     (None, c\<lparr>Conn := (Conn c)\<lparr>outbound := outbound (Conn c) @
        [PutUint32 13 @ MsgRequest # Payload (NewRequest i b l)]\<rparr>\<rparr>)"
  by (simp add: SendRequest_def send_def Serialize_Some_eq NewRequest_def length_PutUint32
        Conn_Write_def)

lemma client_silent_requests:
  "requests (trace (snd (attemptDownloadPiece_run client_silent work20000))) =
     [(3, 0, 16384), (3, 16384, 3616)]"
  by (simp add: attemptDownloadPiece_run_def downloadLoop_unfold requestLoop_unfold
        client_silent_def work20000_def SendRequest_ok blockSize_def MaxBlockSize_def
        MaxBacklog_def observe_def readMessage_def Client_Read_def Read_message_def
        ReadFull_def)

theorem requests_tile_prefix_witness:
  "0 < pw_length work20000
   \<and> requests (trace (snd (attemptDownloadPiece_run client_silent work20000)))
        = [(3, 0, 16384), (3, 16384, 3616)]
   \<and> requested (snd (attemptDownloadPiece_run client_silent work20000)) = 20000
   \<and> outbound (Conn (client (snd (attemptDownloadPiece_run client_silent work20000))))
        = [[0, 0, 0, 13, 6, 0, 0, 0, 3, 0, 0, 0, 0, 0, 0, 64, 0],
           [0, 0, 0, 13, 6, 0, 0, 0, 3, 0, 0, 64, 0, 0, 0, 14, 32]]"
  using requests_tile_prefix [of work20000 client_silent] client_silent_requests
  by (simp add: work20000_def client_silent_def req_index_def req_begin_def req_length_def
        request_frame_def PutUint32_def)

text \<open>
  The requests need not tile all of \<open>[0, L)\<close>. A choked session whose peer sends the
  whole piece of four bytes unasked: the attempt succeeds and no request was sent.
\<close>

definition client_unsolicited :: Client where
  "client_unsolicited =
     \<lparr>Conn = \<lparr>inbound = [0, 0, 0, 13, 7, 0, 0, 0, 0, 0, 0, 0, 0, 1, 2, 3, 4],
              write_results = [], outbound = [], closed = False\<rparr>,
      Choked = True, Bitfield = [128], cl_peer = \<lparr>IP = [127, 0, 0, 1], Port = 6881\<rparr>,
      cl_infoHash = replicate 20 1, cl_peerID = replicate 20 2\<rparr>"

theorem requests_tile_counterexample:
  "0 < pw_length work4
   \<and> fst (attemptDownloadPiece client_unsolicited work4) = Inr [1, 2, 3, 4]
   \<and> requests (trace (snd (attemptDownloadPiece_run client_unsolicited work4))) = []"
  by code_simp

subsection \<open>A block delivered twice\<close>

text \<open>
  The bytes that a frame read adds to \<open>downloaded\<close>: the length of the block when the
  frame is a piece message that \<^verbatim>\<open>ParsePiece\<close> accepts for this piece, and 0 otherwise.
  (Whether \<^verbatim>\<open>ParsePiece\<close> accepts depends on the length of the buffer only, not on what it
  holds.)
\<close>

definition accepted_bytes :: "pieceWork \<Rightarrow> observation \<Rightarrow> int" where
  "accepted_bytes pw ob =
     (case event ob of
        Received (Some m) \<Rightarrow>
          (if ID m = MsgPiece then
             (case ParsePiece m (pw_index pw) (replicate (nat (pw_length pw)) 0) of
                Inl err \<Rightarrow> 0
              | Inr (b, n) \<Rightarrow> n)
           else 0)
      | _ \<Rightarrow> 0)"

lemma ParsePiece_length_only:
  assumes "length b1 = length b2"
  shows "(case ParsePiece m i b1 of Inl err \<Rightarrow> 0 | Inr (b, n) \<Rightarrow> n)
       = (case ParsePiece m i b2 of Inl err \<Rightarrow> 0 | Inr (b, n) \<Rightarrow> n)"
  using assms by (simp add: ParsePiece_def Let_def)

lemma ParsePiece_length:
  assumes "ParsePiece m i b = Inr (b1, n)"
  shows "length b1 = length b"
proof -
  let ?bg = "uint (Uint32 (subslice (Payload m) 4 8))"
  from assms have lt: "?bg < int (length b)"
    and b1: "b1 = fst (copy_at b (nat ?bg) (drop 8 (Payload m)))"
    by (auto simp: ParsePiece_def Let_def split: if_splits)
  have "nat ?bg \<le> length b" using lt by linarith
  then show ?thesis unfolding b1 by (rule length_copy_at)
qed

definition sum_inv :: "pieceWork \<Rightarrow> pieceProgress \<Rightarrow> bool" where
  "sum_inv pw st \<longleftrightarrow>
     index st = pw_index pw \<and> length (buf st) = nat (pw_length pw)
     \<and> downloaded st = sum_list (map (accepted_bytes pw) (trace st))"

lemma readMessage_switch_downloaded:
  assumes "readMessage_switch msg st = (err, st1)"
  shows "index st1 = index st \<and> length (buf st1) = length (buf st) \<and> trace st1 = trace st
     \<and> downloaded st1 = downloaded st +
         (if ID msg = MsgPiece then
            (case ParsePiece msg (index st) (buf st) of Inl e \<Rightarrow> 0 | Inr (b, n) \<Rightarrow> n)
          else 0)"
  using assms
  by (auto simp: readMessage_switch_def messageID_defs ParsePiece_length
      split: if_splits sum.splits prod.splits)

lemma sum_inv_read:
  assumes "sum_inv pw s"
  shows "sum_inv pw (snd (readMessage s))"
proof -
  obtain res c where cr: "Client_Read (client s) = (res, c)"
    by (cases "Client_Read (client s)") auto
  show ?thesis
  proof (cases res)
    case (Inl e)
    then show ?thesis using assms cr by (simp add: readMessage_def sum_inv_def)
  next
    case (Inr mo)
    show ?thesis
    proof (cases mo)
      case None
      then show ?thesis
        using assms cr Inr
        by (simp add: readMessage_def sum_inv_def observe_def accepted_bytes_def)
    next
      case (Some msg)
      obtain e2 st2 where sw: "readMessage_switch msg (s\<lparr>client := c\<rparr>) = (e2, st2)"
        by (cases "readMessage_switch msg (s\<lparr>client := c\<rparr>)") auto
      have st1: "snd (readMessage s) = observe (Received (Some msg)) st2"
        using cr Inr Some sw by (simp add: readMessage_def)
      have len: "length (buf s) = length (replicate (nat (pw_length pw)) (0::byte))"
        using assms by (simp add: sum_inv_def)
      have ab: "accepted_bytes pw \<lparr>event = Received (Some msg), choked_then = x, backlog_then = y\<rparr>
          = (if ID msg = MsgPiece then
               (case ParsePiece msg (index s) (buf s) of Inl e \<Rightarrow> 0 | Inr (b, n) \<Rightarrow> n)
             else 0)" for x y
        using assms ParsePiece_length_only[OF len, of msg "pw_index pw"]
        by (simp add: accepted_bytes_def sum_inv_def)
      show ?thesis
        unfolding st1 using readMessage_switch_downloaded[OF sw] assms ab
        by (simp add: sum_inv_def observe_def)
    qed
  qed
qed

lemma sum_inv_run: "sum_inv pw (snd (attemptDownloadPiece_run c pw))"
  unfolding attemptDownloadPiece_run_def
proof (rule downloadLoop_invariant[where P = "sum_inv pw"])
  show "sum_inv pw \<lparr>index = pw_index pw, client = c,
      buf = replicate (nat (pw_length pw)) 0, downloaded = 0, requested = 0, backlog = 0,
      trace = []\<rparr>"
    by (simp add: sum_inv_def)
next
  fix s c
  assume "sum_inv pw s"
  then show "sum_inv pw (observe (Sent (pw_index pw) (requested s) (blockSize pw s))
             (s\<lparr>client := c, backlog := backlog s + 1,
                requested := requested s + blockSize pw s\<rparr>))"
    by (simp add: sum_inv_def observe_def accepted_bytes_def)
next
  fix s :: pieceProgress and c
  assume "sum_inv pw s"
  then show "sum_inv pw (s\<lparr>client := c\<rparr>)" by (simp add: sum_inv_def)
next
  fix s
  assume "sum_inv pw s"
  then show "sum_inv pw (snd (readMessage s))" by (rule sum_inv_read)
qed

lemma downloadLoop_done:
  "fst (downloadLoop pw st) = None \<Longrightarrow> pw_length pw \<le> downloaded (snd (downloadLoop pw st))"
proof (induction pw st rule: downloadLoop.induct)
  case (1 pw st)
  show ?case
  proof (cases "downloaded st < pw_length pw")
    case False
    then have "downloadLoop pw st = (None, st)"
      by (subst downloadLoop_unfold) simp
    then show ?thesis using False by simp
  next
    case True
    obtain e1 st1 where rl:
      "(if \<not> Choked (client st) then requestLoop pw st else (None, st)) = (e1, st1)"
      by (cases "if \<not> Choked (client st) then requestLoop pw st else (None, st)") auto
    show ?thesis
    proof (cases e1)
      case (Some e)
      have "downloadLoop pw st = (Some e, st1)"
        by (subst downloadLoop_unfold) (simp add: True rl Some)
      then show ?thesis using "1.prems" by simp
    next
      case None
      obtain e2 st2 where rm: "readMessage st1 = (e2, st2)"
        by (cases "readMessage st1") auto
      show ?thesis
      proof (cases e2)
        case (Some e)
        have "downloadLoop pw st = (Some e, st2)"
          by (subst downloadLoop_unfold) (simp add: True rl None rm Some)
        then show ?thesis using "1.prems" by simp
      next
        case n2: None
        have eq: "downloadLoop pw st = downloadLoop pw st2"
          by (subst downloadLoop_unfold) (simp add: True rl None rm n2)
        show ?thesis
          using "1.IH"[OF True rl[unfolded None, symmetric] refl rm[unfolded n2, symmetric]
              refl] "1.prems" unfolding eq by simp
      qed
    qed
  qed
qed

text \<open>
  The piece of four bytes again, and an unchoked session whose peer answers the one
  request with the same block twice: the first two bytes of the piece.
\<close>

definition block_0_2 :: Message where
  "block_0_2 = \<lparr>ID = 7, Payload = [0, 0, 0, 0, 0, 0, 0, 0, 1, 2]\<rparr>"

definition client_duplicate :: Client where
  "client_duplicate =
     \<lparr>Conn = \<lparr>inbound = [0, 0, 0, 11, 7, 0, 0, 0, 0, 0, 0, 0, 0, 1, 2]
                         @ [0, 0, 0, 11, 7, 0, 0, 0, 0, 0, 0, 0, 0, 1, 2],
              write_results = [], outbound = [], closed = False\<rparr>,
      Choked = False, Bitfield = [128], cl_peer = \<lparr>IP = [127, 0, 0, 1], Port = 6881\<rparr>,
      cl_infoHash = replicate 20 1, cl_peerID = replicate 20 2\<rparr>"

lemma client_duplicate_run:
  "fst (attemptDownloadPiece client_duplicate work4) = Inr [1, 2, 0, 0]
   \<and> fst (attemptDownloadPiece_run client_duplicate work4) = None
   \<and> map event (trace (snd (attemptDownloadPiece_run client_duplicate work4)))
       = [Sent 0 0 4, Received (Some block_0_2), Received (Some block_0_2)]
   \<and> map (accepted_bytes work4) (trace (snd (attemptDownloadPiece_run client_duplicate work4)))
       = [0, 2, 2]
   \<and> downloaded (snd (attemptDownloadPiece_run client_duplicate work4)) = 4"
  by code_simp

text \<open>
  C10. In every run of \<^verbatim>\<open>attemptDownloadPiece\<close>, \<open>downloaded\<close> is the sum of the lengths of
  the blocks accepted, whatever their offsets, and the loop ends without an error only
  once that sum has reached the length of the piece. So a block delivered twice counts
  twice: here the stream holds the frame of one block (index 0, begin 0, the two bytes
  1 and 2) twice; both are accepted, \<open>downloaded\<close> reaches 4 and the attempt returns the
  buffer 1, 2, 0, 0, whose bytes 2 and 3 were written by no block.
\<close>

theorem duplicate_block_leaves_gap:
  "downloaded (snd (attemptDownloadPiece_run c pw))
      = sum_list (map (accepted_bytes pw) (trace (snd (attemptDownloadPiece_run c pw))))
   \<and> (fst (attemptDownloadPiece_run c pw) = None \<longrightarrow>
        pw_length pw \<le> downloaded (snd (attemptDownloadPiece_run c pw)))
   \<and> Serialize (Some block_0_2) = Inr [0, 0, 0, 11, 7, 0, 0, 0, 0, 0, 0, 0, 0, 1, 2]
   \<and> piece_index block_0_2 = 0 \<and> piece_begin block_0_2 = 0 \<and> piece_data block_0_2 = [1, 2]
   \<and> inbound (Conn client_duplicate) = [0, 0, 0, 11, 7, 0, 0, 0, 0, 0, 0, 0, 0, 1, 2]
                            @ [0, 0, 0, 11, 7, 0, 0, 0, 0, 0, 0, 0, 0, 1, 2]
   \<and> pw_length work4 = 4
   \<and> fst (attemptDownloadPiece client_duplicate work4) = Inr [1, 2, 0, 0]
   \<and> map event (trace (snd (attemptDownloadPiece_run client_duplicate work4)))
       = [Sent 0 0 4, Received (Some block_0_2), Received (Some block_0_2)]
   \<and> downloaded (snd (attemptDownloadPiece_run client_duplicate work4)) = 4"
proof -
  have g1: "downloaded (snd (attemptDownloadPiece_run c pw))
      = sum_list (map (accepted_bytes pw) (trace (snd (attemptDownloadPiece_run c pw))))"
    using sum_inv_run[of pw c] by (simp add: sum_inv_def)
  have g2: "pw_length pw \<le> downloaded (snd (attemptDownloadPiece_run c pw))"
    if "fst (attemptDownloadPiece_run c pw) = None"
    using that unfolding attemptDownloadPiece_run_def by (rule downloadLoop_done)
  have s: "Serialize (Some block_0_2) = Inr [0, 0, 0, 11, 7, 0, 0, 0, 0, 0, 0, 0, 0, 1, 2]"
    by (simp add: block_0_2_def Serialize_Some_eq PutUint32_def)
  have p: "piece_index block_0_2 = 0 \<and> piece_begin block_0_2 = 0
      \<and> piece_data block_0_2 = [1, 2]"
    by (simp add: block_0_2_def piece_index_def piece_begin_def piece_data_def
          big_endian_at_def)
  show ?thesis
    using g1 g2 s p client_duplicate_run by (simp add: client_duplicate_def work4_def)
qed

theorem duplicate_block_leaves_gap_witness:
  "fst (attemptDownloadPiece_run client_duplicate work4) = None
   \<and> pw_length work4 \<le> downloaded (snd (attemptDownloadPiece_run client_duplicate work4))
   \<and> downloaded (snd (attemptDownloadPiece_run client_duplicate work4)) = sum_list [0, 2, 2]"
  using duplicate_block_leaves_gap [of client_duplicate work4] client_duplicate_run
  by simp

section \<open>The worker\<close>

text \<open>
  The download attempt panics only where it allocates the buffer, when the length of
  the piece is negative: no error that the loop returns is a panic.
\<close>

lemma Conn_Write_error: "fst (Conn_Write conn bs) \<noteq> Some Panic"
  by (auto simp: Conn_Write_def split: list.splits)

lemma send_no_panic:
  assumes "length (Payload msg) + 5 < 2 ^ 32"
  shows "fst (send c msg) \<noteq> Some Panic"
proof -
  obtain e conn1 where cw:
    "Conn_Write (Conn c) (PutUint32 (of_nat (length (Payload msg) + 1)) @ ID msg # Payload msg)
       = (e, conn1)"
    by (cases "Conn_Write (Conn c)
        (PutUint32 (of_nat (length (Payload msg) + 1)) @ ID msg # Payload msg)") auto
  have "e \<noteq> Some Panic"
    using Conn_Write_error[of "Conn c"
        "PutUint32 (of_nat (length (Payload msg) + 1)) @ ID msg # Payload msg"] cw
    by simp
  then show ?thesis
    using cw by (simp add: send_def Serialize_Some_eq[OF assms])
qed

lemma SendRequest_no_panic: "fst (SendRequest c i b l) \<noteq> Some Panic"
  unfolding SendRequest_def
  by (rule send_no_panic) (simp add: NewRequest_def length_PutUint32)

lemma requestLoop_no_panic: "fst (requestLoop pw st) \<noteq> Some Panic"
proof (induction pw st rule: requestLoop.induct)
  case (1 pw st)
  show ?case
  proof (cases "backlog st < MaxBacklog \<and> requested st < pw_length pw")
    case False
    then have "requestLoop pw st = (None, st)"
      by (subst requestLoop_unfold) auto
    then show ?thesis by simp
  next
    case True
    obtain err c where sr:
      "SendRequest (client st) (pw_index pw) (requested st) (blockSize pw st) = (err, c)"
      by (cases "SendRequest (client st) (pw_index pw) (requested st) (blockSize pw st)") auto
    show ?thesis
    proof (cases err)
      case (Some e)
      have "e \<noteq> Panic"
        using SendRequest_no_panic[of "client st" "pw_index pw" "requested st" "blockSize pw st"]
          sr Some by simp
      then show ?thesis
        using True sr Some by (simp add: requestLoop_unfold[of pw st])
    next
      case None
      have eq: "requestLoop pw st = requestLoop pw
             (observe (Sent (pw_index pw) (requested st) (blockSize pw st))
             (st\<lparr>client := c, backlog := backlog st + 1,
                requested := requested st + blockSize pw st\<rparr>))"
        by (subst requestLoop_unfold) (simp add: True sr None)
      show ?thesis
        unfolding eq by (rule "1.IH"[OF True sr[unfolded None, symmetric] refl])
    qed
  qed
qed

lemma ReadFull_no_panic: "fst (ReadFull r n) \<noteq> Inl Panic"
  by (simp add: ReadFull_def)

lemma Read_message_no_panic: "fst (Read_message r) \<noteq> Inl Panic"
proof -
  obtain a r1 where r4: "ReadFull r 4 = (a, r1)" by (cases "ReadFull r 4") auto
  have a: "a \<noteq> Inl Panic" using ReadFull_no_panic[of r 4] r4 by simp
  show ?thesis
  proof (cases a)
    case (Inl e)
    then show ?thesis using r4 a by (simp add: Read_message_def)
  next
    case (Inr lengthBuf)
    obtain b r2 where rn: "ReadFull r1 (unat (Uint32 lengthBuf)) = (b, r2)"
      by (cases "ReadFull r1 (unat (Uint32 lengthBuf))") auto
    have b: "b \<noteq> Inl Panic"
      using ReadFull_no_panic[of r1 "unat (Uint32 lengthBuf)"] rn by simp
    show ?thesis
      using r4 Inr rn b by (cases b) (simp_all add: Read_message_def Let_def)
  qed
qed

lemma ParseHave_no_panic: "ParseHave msg \<noteq> Inl Panic"
  by (simp add: ParseHave_def)

lemma ParsePiece_no_panic: "ParsePiece msg i b \<noteq> Inl Panic"
  by (simp add: ParsePiece_def Let_def)

lemma readMessage_switch_no_panic: "fst (readMessage_switch msg st) \<noteq> Some Panic"
  using ParseHave_no_panic[of msg] ParsePiece_no_panic[of msg "index st" "buf st"]
  by (auto simp: readMessage_switch_def split: sum.splits prod.splits)

lemma readMessage_no_panic: "fst (readMessage st) \<noteq> Some Panic"
proof -
  obtain res c where cr: "Client_Read (client st) = (res, c)"
    by (cases "Client_Read (client st)") auto
  then have np: "res \<noteq> Inl Panic"
    using Read_message_no_panic[of "inbound (Conn (client st))"]
    by (auto simp: Client_Read_def split: prod.splits)
  show ?thesis
  proof (cases res)
    case (Inl e)
    then show ?thesis using cr np by (simp add: readMessage_def)
  next
    case (Inr mo)
    show ?thesis
    proof (cases mo)
      case None
      then show ?thesis using cr Inr by (simp add: readMessage_def)
    next
      case (Some msg)
      obtain e2 st2 where sw: "readMessage_switch msg (st\<lparr>client := c\<rparr>) = (e2, st2)"
        by (cases "readMessage_switch msg (st\<lparr>client := c\<rparr>)") auto
      have "e2 \<noteq> Some Panic"
        using readMessage_switch_no_panic[of msg "st\<lparr>client := c\<rparr>"] sw by simp
      then show ?thesis
        using cr Inr Some sw by (simp add: readMessage_def)
    qed
  qed
qed

lemma downloadLoop_no_panic: "fst (downloadLoop pw st) \<noteq> Some Panic"
proof (induction pw st rule: downloadLoop.induct)
  case (1 pw st)
  show ?case
  proof (cases "downloaded st < pw_length pw")
    case False
    then have "downloadLoop pw st = (None, st)"
      by (subst downloadLoop_unfold) simp
    then show ?thesis by simp
  next
    case True
    obtain e1 st1 where rl:
      "(if \<not> Choked (client st) then requestLoop pw st else (None, st)) = (e1, st1)"
      by (cases "if \<not> Choked (client st) then requestLoop pw st else (None, st)") auto
    show ?thesis
    proof (cases e1)
      case (Some e)
      have "e \<noteq> Panic"
        using rl Some requestLoop_no_panic[of pw st] by (auto split: if_splits)
      moreover have "downloadLoop pw st = (Some e, st1)"
        by (subst downloadLoop_unfold) (simp add: True rl Some)
      ultimately show ?thesis by simp
    next
      case None
      obtain e2 st2 where rm: "readMessage st1 = (e2, st2)"
        by (cases "readMessage st1") auto
      show ?thesis
      proof (cases e2)
        case (Some e)
        have "e \<noteq> Panic" using rm Some readMessage_no_panic[of st1] by simp
        moreover have "downloadLoop pw st = (Some e, st2)"
          by (subst downloadLoop_unfold) (simp add: True rl None rm Some)
        ultimately show ?thesis by simp
      next
        case n2: None
        have eq: "downloadLoop pw st = downloadLoop pw st2"
          by (subst downloadLoop_unfold) (simp add: True rl None rm n2)
        show ?thesis
          unfolding eq
          by (rule "1.IH"[OF True rl[unfolded None, symmetric] refl rm[unfolded n2, symmetric]
              refl])
      qed
    qed
  qed
qed

lemma attemptDownloadPiece_panics_iff:
  "fst (attemptDownloadPiece c pw) = Inl Panic \<longleftrightarrow> pw_length pw < 0"
proof -
  obtain e st where r: "attemptDownloadPiece_run c pw = (e, st)"
    by (cases "attemptDownloadPiece_run c pw") auto
  have "e \<noteq> Some Panic"
    using downloadLoop_no_panic[of pw "\<lparr>index = pw_index pw, client = c,
      buf = replicate (nat (pw_length pw)) 0, downloaded = 0, requested = 0, backlog = 0,
      trace = []\<rparr>"] r
    by (simp add: attemptDownloadPiece_run_def)
  then show ?thesis
    using r by (cases e) (simp_all add: attemptDownloadPiece_def)
qed

text \<open>
  Two stand-ins for the hash function in the runs below: one under which every buffer
  has the hash of \<open>work4\<close>, one under which none has.
\<close>

definition sha_stub :: "byte list \<Rightarrow> byte list" where
  "sha_stub b = replicate 20 0"

definition sha_other :: "byte list \<Rightarrow> byte list" where
  "sha_other b = replicate 20 1"

text \<open>
  C8. One pass of the worker's loop over a piece taken from the queue. When the peer's
  bitfield lacks the piece, when the download attempt returns an error, and when the
  integrity check fails, the piece is sent back to the queue once (the queue is the old
  one with the piece appended) and no result is published; the worker returns in the
  second case and goes on in the other two. The pass does not panic unless the length
  of the piece is negative, and whenever it ends without a panic and publishes no
  result, the piece is back in the queue.
\<close>

theorem requeue_on_failure:
  "(case startDownloadWorker_iteration sha1 c pw workQueue results of
      (ctl, c1, workQueue1, results1) \<Rightarrow>
        (\<not> HasPiece (Bitfield c) (pw_index pw) \<longrightarrow>
           workQueue1 = workQueue @ [pw] \<and> results1 = results \<and> ctl = Continue)
        \<and> (HasPiece (Bitfield c) (pw_index pw) \<longrightarrow> 0 \<le> pw_length pw
              \<longrightarrow> isl (fst (attemptDownloadPiece c pw))
              \<longrightarrow> workQueue1 = workQueue @ [pw] \<and> results1 = results \<and> ctl = Return)
        \<and> (HasPiece (Bitfield c) (pw_index pw) \<longrightarrow>
           (\<forall>b. fst (attemptDownloadPiece c pw) = Inr b \<longrightarrow> checkIntegrity sha1 pw b \<noteq> None
              \<longrightarrow> workQueue1 = workQueue @ [pw] \<and> results1 = results \<and> ctl = Continue))
        \<and> (0 \<le> pw_length pw \<longrightarrow> ctl \<noteq> Panics)
        \<and> (ctl \<noteq> Panics \<longrightarrow> results1 = results
              \<longrightarrow> workQueue1 = workQueue @ [pw] \<and> pw \<in> set workQueue1))"
proof -
  have np: "err \<noteq> Panic"
    if "0 \<le> pw_length pw" "attemptDownloadPiece c pw = (Inl err, c1)" for err c1
    using that attemptDownloadPiece_panics_iff[of c pw] by auto
  show ?thesis
    using np
    by (auto simp: startDownloadWorker_iteration_def
        split: prod.splits sum.splits option.splits if_splits)
qed

text \<open>
  Three failing passes for the piece of four bytes: a peer without the piece, a silent
  peer, and a peer whose bytes do not have the expected hash.
\<close>

definition client_no_piece :: Client where
  "client_no_piece = client_duplicate\<lparr>Bitfield := [0]\<rparr>"

lemma failing_runs:
  "\<not> HasPiece (Bitfield client_no_piece) (pw_index work4)
   \<and> HasPiece (Bitfield client_silent) (pw_index work4)
   \<and> 0 \<le> pw_length work4
   \<and> fst (attemptDownloadPiece client_silent work4) = Inl EOF
   \<and> HasPiece (Bitfield client_choke_unchoke) (pw_index work4)
   \<and> fst (attemptDownloadPiece client_choke_unchoke work4) = Inr [1, 2, 3, 4]
   \<and> checkIntegrity sha_other work4 [1, 2, 3, 4] \<noteq> None"
  by code_simp

theorem requeue_on_failure_witness:
  "snd (snd (startDownloadWorker_iteration sha_stub client_no_piece work4 [] []))
       = ([work4], [])
   \<and> fst (startDownloadWorker_iteration sha_stub client_no_piece work4 [] []) = Continue
   \<and> snd (snd (startDownloadWorker_iteration sha_stub client_silent work4 [] []))
       = ([work4], [])
   \<and> fst (startDownloadWorker_iteration sha_stub client_silent work4 [] []) = Return
   \<and> snd (snd (startDownloadWorker_iteration sha_other client_choke_unchoke work4 [] []))
       = ([work4], [])
   \<and> fst (startDownloadWorker_iteration sha_other client_choke_unchoke work4 [] [])
       = Continue"
  using requeue_on_failure [where ?sha1.0 = sha_stub and c = client_no_piece and pw = work4
        and workQueue = "[]" and results = "[]"]
    requeue_on_failure [where ?sha1.0 = sha_stub and c = client_silent and pw = work4
        and workQueue = "[]" and results = "[]"]
    requeue_on_failure [where ?sha1.0 = sha_other and c = client_choke_unchoke and pw = work4
        and workQueue = "[]" and results = "[]"]
    failing_runs
  by (auto split: prod.splits)

text \<open>
  C1. After a piece has been downloaded and has passed the integrity check, the worker
  sends the Have message and publishes the result whether or not the write of the Have
  message succeeds: what \<^verbatim>\<open>SendHave\<close> returns is dropped, the piece is not sent back to the
  queue and the worker goes on.
\<close>

theorem have_failure_ignored:
  "HasPiece (Bitfield c) (pw_index pw) \<Longrightarrow> attemptDownloadPiece c pw = (Inr b, c1) \<Longrightarrow>
   checkIntegrity sha1 pw b = None \<Longrightarrow>
   startDownloadWorker_iteration sha1 c pw workQueue results =
     (Continue, snd (SendHave c1 (pw_index pw)), workQueue,
      results @ [\<lparr>res_index = pw_index pw, res_buf = b\<rparr>])"
  by (auto simp: startDownloadWorker_iteration_def split: prod.splits)

text \<open>
  An unchoked session whose peer sends the piece of four bytes, and whose first write
  (the request) succeeds and second write (the Have message) fails.
\<close>

definition client_have_fails :: Client where
  "client_have_fails =
     \<lparr>Conn = \<lparr>inbound = [0, 0, 0, 13, 7, 0, 0, 0, 0, 0, 0, 0, 0, 1, 2, 3, 4],
              write_results = [True, False], outbound = [], closed = False\<rparr>,
      Choked = False, Bitfield = [128], cl_peer = \<lparr>IP = [127, 0, 0, 1], Port = 6881\<rparr>,
      cl_infoHash = replicate 20 1, cl_peerID = replicate 20 2\<rparr>"

lemma client_have_fails_run:
  "HasPiece (Bitfield client_have_fails) (pw_index work4)
   \<and> fst (attemptDownloadPiece client_have_fails work4) = Inr [1, 2, 3, 4]
   \<and> checkIntegrity sha_stub work4 [1, 2, 3, 4] = None
   \<and> fst (SendHave (snd (attemptDownloadPiece client_have_fails work4)) (pw_index work4))
       = Some WriteError"
  by code_simp

theorem have_failure_ignored_witness:
  "HasPiece (Bitfield client_have_fails) (pw_index work4)
   \<and> checkIntegrity sha_stub work4 [1, 2, 3, 4] = None
   \<and> fst (startDownloadWorker_iteration sha_stub client_have_fails work4 [] []) = Continue
   \<and> snd (snd (startDownloadWorker_iteration sha_stub client_have_fails work4 [] []))
       = ([], [\<lparr>res_index = 0, res_buf = [1, 2, 3, 4]\<rparr>])"
proof -
  obtain c1 where a: "attemptDownloadPiece client_have_fails work4 = (Inr [1, 2, 3, 4], c1)"
    using client_have_fails_run by (cases "attemptDownloadPiece client_have_fails work4") auto
  show ?thesis
    using have_failure_ignored [OF _ a, of sha_stub "[]" "[]"] client_have_fails_run
    by (simp add: work4_def)
qed

text \<open>
  The claim as stated fails on that run: the write of the Have message fails, and the
  pass publishes the result, leaves the queue as it was and goes on.
\<close>

theorem have_failure_counterexample:
  "HasPiece (Bitfield client_have_fails) (pw_index work4)
   \<and> fst (attemptDownloadPiece client_have_fails work4) = Inr [1, 2, 3, 4]
   \<and> checkIntegrity sha_stub work4 [1, 2, 3, 4] = None
   \<and> fst (SendHave (snd (attemptDownloadPiece client_have_fails work4)) (pw_index work4))
       = Some WriteError
   \<and> (case startDownloadWorker_iteration sha_stub client_have_fails work4 [] [] of
        (ctl, c1, workQueue1, results1) \<Rightarrow>
          ctl = Continue \<and> workQueue1 = []
          \<and> results1 = [\<lparr>res_index = 0, res_buf = [1, 2, 3, 4]\<rparr>])"
  by code_simp

end
